theory Spec2Isabelle
  imports Main "HOL-Library.Sublist"
begin

section \<open>Strings of the JavaScript runtime\<close>

text \<open>
  A JavaScript string is a sequence of UTF-16 code units. \<open>charCodeAt\<close> reads a unit as
  a number between 0 and 0xFFFF, so a unit is a natural number here and a string a list
  of units. The only arithmetic of the program on a unit is \<open>code + 0x60\<close> under the
  guard \<open>code \<le> 0x3096\<close>, which \<open>String.fromCharCode\<close> does not truncate.
\<close>

type_synonym codeunit = nat
type_synonym jsstring = "codeunit list"

subsection \<open>String methods the program calls\<close>

text \<open>
  White space and line terminators of ECMAScript, the units that
  \<open>String.prototype.trim\<close> removes from both ends.
\<close>

definition isWhiteSpace :: "codeunit \<Rightarrow> bool" where
  "isWhiteSpace u \<longleftrightarrow>
     u = 0x0009 \<or> u = 0x000A \<or> u = 0x000B \<or> u = 0x000C \<or> u = 0x000D \<or> u = 0x0020 \<or>
     u = 0x00A0 \<or> u = 0x1680 \<or> (0x2000 \<le> u \<and> u \<le> 0x200A) \<or> u = 0x2028 \<or>
     u = 0x2029 \<or> u = 0x202F \<or> u = 0x205F \<or> u = 0x3000 \<or> u = 0xFEFF"

definition trim :: "jsstring \<Rightarrow> jsstring" where
  "trim s = rev (dropWhile isWhiteSpace (rev (dropWhile isWhiteSpace s)))"

definition startsWith :: "jsstring \<Rightarrow> jsstring \<Rightarrow> bool" where
  "startsWith s p \<longleftrightarrow> take (length p) s = p"

definition endsWith :: "jsstring \<Rightarrow> jsstring \<Rightarrow> bool" where
  "endsWith s p \<longleftrightarrow> length p \<le> length s \<and> drop (length s - length p) s = p"

text \<open>
  \<open>s.slice(start, end)\<close>: a negative index counts from the end, both are clamped to
  the string. \<open>s.slice(start)\<close> runs to the end of the string.
\<close>

definition slice :: "jsstring \<Rightarrow> int \<Rightarrow> int \<Rightarrow> jsstring" where
  "slice s start fin =
     (let len = int (length s);
          from = (if start < 0 then max (len + start) 0 else min start len);
          to = (if fin < 0 then max (len + fin) 0 else min fin len)
      in take (nat (to - from)) (drop (nat from) s))"

definition slice1 :: "jsstring \<Rightarrow> int \<Rightarrow> jsstring" where
  "slice1 s start = slice s start (int (length s))"

text \<open>\<open>s[i]\<close> is the one-unit string at index \<open>i\<close>, or \<open>undefined\<close> (here \<open>None\<close>) out of range.\<close>

definition index :: "jsstring \<Rightarrow> nat \<Rightarrow> jsstring option" where
  "index s i = (if i < length s then Some [s ! i] else None)"

text \<open>
  A string method coerces its argument with \<open>ToString\<close>: \<open>undefined\<close> becomes the
  nine letters of the word "undefined".
\<close>

definition undefinedText :: jsstring where
  "undefinedText = [0x75, 0x6E, 0x64, 0x65, 0x66, 0x69, 0x6E, 0x65, 0x64]"

definition toStringArg :: "jsstring option \<Rightarrow> jsstring" where
  "toStringArg v = (case v of None \<Rightarrow> undefinedText | Some s \<Rightarrow> s)"

text \<open>\<open>a || b\<close> on a string or \<open>undefined\<close>: the empty string is falsy as \<open>undefined\<close> is.\<close>

definition orElse :: "jsstring option \<Rightarrow> jsstring \<Rightarrow> jsstring" where
  "orElse v b = (case v of None \<Rightarrow> b | Some a \<Rightarrow> (if a = [] then b else a))"

text \<open>\<open>s.includes(sub)\<close>: \<open>sub\<close> occurs in \<open>s\<close> at some position.\<close>

fun includes_str :: "jsstring \<Rightarrow> jsstring \<Rightarrow> bool" where
  "includes_str [] sub = (sub = [])"
| "includes_str (x # xs) sub = (startsWith (x # xs) sub \<or> includes_str xs sub)"

text \<open>
  \<open>s.split(sep)\<close> and \<open>parts.join(sep)\<close>. The separators of the program are the keys of
  its table of special cases, one code unit each, so \<open>split\<close> takes a unit.
\<close>

fun split :: "jsstring \<Rightarrow> codeunit \<Rightarrow> jsstring list" where
  "split [] sep = [[]]"
| "split (x # xs) sep =
     (if x = sep then [] # split xs sep
      else (case split xs sep of [] \<Rightarrow> [[x]] | p # ps \<Rightarrow> (x # p) # ps))"

fun join :: "jsstring list \<Rightarrow> jsstring \<Rightarrow> jsstring" where
  "join [] sep = []"
| "join [p] sep = p"
| "join (p # q # ps) sep = p @ sep @ join (q # ps) sep"

text \<open>
  \<open>for (const ch of s)\<close> walks the string by code point: a high surrogate followed by
  a low surrogate is one two-unit \<open>ch\<close>, every other unit is a \<open>ch\<close> of its own.
\<close>

definition isHighSurrogate :: "codeunit \<Rightarrow> bool" where
  "isHighSurrogate u \<longleftrightarrow> 0xD800 \<le> u \<and> u \<le> 0xDBFF"

definition isLowSurrogate :: "codeunit \<Rightarrow> bool" where
  "isLowSurrogate u \<longleftrightarrow> 0xDC00 \<le> u \<and> u \<le> 0xDFFF"

fun codePoints :: "jsstring \<Rightarrow> jsstring list" where
  "codePoints [] = []"
| "codePoints [x] = [[x]]"
| "codePoints (x # y # r) =
     (if isHighSurrogate x \<and> isLowSurrogate y then [x, y] # codePoints r
      else [x] # codePoints (y # r))"

subsection \<open>Width normalisation and case folding\<close>

text \<open>
  \<open>input.normalize('NFKC')\<close> and \<open>out.toLowerCase()\<close> are methods of the runtime, not code
  of the program: the first is the Unicode normalisation form KC, the second the
  lower-casing of the Unicode standard. The program is defined over a runtime, the pair of
  these two functions on strings, and a statement about every string is made for every
  runtime, under the facts about the two functions that it needs.
\<close>

record runtime =
  nfkcOf :: "jsstring \<Rightarrow> jsstring"
  lowerOf :: "jsstring \<Rightarrow> jsstring"

section \<open>The program\<close>

text \<open>
  Each function of the source that calls \<open>normalize('NFKC')\<close> or \<open>toLowerCase\<close>, or that
  calls such a function, takes the runtime as its first argument and has \<open>On\<close> at the end
  of its name.
\<close>

record Pokemon =
  id_num :: int
  name :: jsstring
  jpName :: jsstring
  isFinalEvolution :: bool
  isRestricted :: bool

subsection \<open>normalizeSpecialCases\<close>

text \<open>
  The table of the source has the full-width digit two, U+FF12, for the reading
  U+30C4 U+30FC, and the full-width capital Z, U+FF3A, for the reading
  U+30BC U+30C3 U+30C8, in this order.
\<close>

definition specialCases :: "(codeunit \<times> jsstring) list" where
  "specialCases = [(0xFF12, [0x30C4, 0x30FC]), (0xFF3A, [0x30BC, 0x30C3, 0x30C8])]"

definition normalizeSpecialCases :: "jsstring \<Rightarrow> jsstring" where
  "normalizeSpecialCases input =
     (if input = [] then []
      else foldl (\<lambda>out (from, to). join (split out from) to) input specialCases)"

subsection \<open>normalizeEnding\<close>

text \<open>The \<open>while\<close> loop of the source on the index \<open>end\<close>, which it runs down to \<open>-1\<close>.\<close>

function normalizeEnding_loop :: "jsstring \<Rightarrow> int \<Rightarrow> int" where
  "normalizeEnding_loop nk e =
     (if e \<ge> 0 then
        (if nk ! nat e = 0x30FC then normalizeEnding_loop nk (e - 1) else e)
      else e)"
  by pat_completeness auto
termination
  by (relation "measure (\<lambda>(nk, e). nat (e + 1))") auto

declare normalizeEnding_loop.simps [simp del]

definition normalizeEndingOn :: "runtime \<Rightarrow> jsstring \<Rightarrow> jsstring" where
  "normalizeEndingOn rt input =
     (if input = [] then []
      else (let nk = nfkcOf rt input;
                e = normalizeEnding_loop nk (int (length nk) - 1)
            in slice nk 0 (e + 1)))"

subsection \<open>normalizeKana\<close>

definition normalizeKanaOn :: "runtime \<Rightarrow> jsstring \<Rightarrow> jsstring" where
  "normalizeKanaOn rt input =
     (if input = [] then []
      else (let nk = nfkcOf rt input;
                out = concat (map (\<lambda>ch. let code = hd ch in
                                     if code \<ge> 0x3041 \<and> code \<le> 0x3096 then [code + 0x60]
                                     else ch)
                                  (codePoints nk))
            in lowerOf rt out))"

subsection \<open>normalizeDakuten\<close>

definition dakutenTable :: "(codeunit \<times> jsstring) list" where
  "dakutenTable = [
    (0x30AC, [0x30AB]), (0x30AE, [0x30AD]), (0x30B0, [0x30AF]), (0x30B2, [0x30B1]), (0x30B4, [0x30B3]),
    (0x30B6, [0x30B5]), (0x30B8, [0x30B7]), (0x30BA, [0x30B9]), (0x30BC, [0x30BB]), (0x30BE, [0x30BD]),
    (0x30C0, [0x30BF]), (0x30C2, [0x30C1]), (0x30C5, [0x30C4]), (0x30C7, [0x30C6]), (0x30C9, [0x30C8]),
    (0x30D0, [0x30CF]), (0x30D3, [0x30D2]), (0x30D6, [0x30D5]), (0x30D9, [0x30D8]), (0x30DC, [0x30DB]),
    (0x30D1, [0x30CF]), (0x30D4, [0x30D2]), (0x30D7, [0x30D5]), (0x30DA, [0x30D8]), (0x30DD, [0x30DB])]"

definition dakutenMap :: "codeunit \<Rightarrow> jsstring option" where
  "dakutenMap = map_of dakutenTable"

definition normalizeDakuten :: "jsstring \<Rightarrow> jsstring" where
  "normalizeDakuten input =
     concat (map (\<lambda>i. let ch = input ! i in
                    if i = 0 \<or> int i = int (length input) - 1 then orElse (dakutenMap ch) [ch]
                    else [ch])
                 [0..<length input])"

subsection \<open>normalizeSmallKana\<close>

definition smallHira :: jsstring where
  "smallHira = [0x3041, 0x3043, 0x3045, 0x3047, 0x3049, 0x3063, 0x3083, 0x3085, 0x3087, 0x308E]"

definition smallKata :: jsstring where
  "smallKata = [0x30A1, 0x30A3, 0x30A5, 0x30A7, 0x30A9, 0x30C3, 0x30E3, 0x30E5, 0x30E7, 0x30EE,
                0x30F5, 0x30F6]"

definition isSmallKana :: "jsstring \<Rightarrow> bool" where
  "isSmallKana ch \<longleftrightarrow> includes_str smallHira ch \<or> includes_str smallKata ch"

definition smallKanaTable :: "(jsstring \<times> jsstring) list" where
  "smallKanaTable = [
    ([0x3041], [0x3042]), ([0x3043], [0x3044]), ([0x3045], [0x3046]), ([0x3047], [0x3048]), ([0x3049], [0x304A]),
    ([0x3083], [0x3084]), ([0x3085], [0x3086]), ([0x3087], [0x3088]), ([0x308E], [0x308F]), ([0x3063], [0x3064]),
    ([0x3095], [0x304B]), ([0x3096], [0x3051]), ([0x30A1], [0x30A2]), ([0x30A3], [0x30A4]), ([0x30A5], [0x30A6]),
    ([0x30A7], [0x30A8]), ([0x30A9], [0x30AA]), ([0x30E3], [0x30E4]), ([0x30E5], [0x30E6]), ([0x30E7], [0x30E8]),
    ([0x30EE], [0x30EF]), ([0x30C3], [0x30C4]), ([0x30F5], [0x30AB]), ([0x30F6], [0x30B1])]"

definition smallKanaMap :: "jsstring \<Rightarrow> jsstring option" where
  "smallKanaMap = map_of smallKanaTable"

text \<open>
  \<open>(isSmallKana(ch) && map[ch]) ? map[ch] : ch\<close>: the condition is the entry of the
  table when \<open>isSmallKana\<close> holds, and it counts as true when the entry is there and
  not the empty string.
\<close>

definition normalizeSmallKanaOn :: "runtime \<Rightarrow> jsstring \<Rightarrow> jsstring" where
  "normalizeSmallKanaOn rt input =
     (if input = [] then []
      else (let nk = nfkcOf rt input
            in concat (map (\<lambda>ch. case (if isSmallKana ch then smallKanaMap ch else None) of
                                   Some v \<Rightarrow> (if v = [] then ch else v)
                                 | None \<Rightarrow> ch)
                           (codePoints nk))))"

subsection \<open>normalize\<close>

definition normalizeOn :: "runtime \<Rightarrow> jsstring \<Rightarrow> jsstring" where
  "normalizeOn rt input =
     (if input = [] then []
      else (let special = normalizeSpecialCases input;
                ending = normalizeEndingOn rt special;
                kana = normalizeKanaOn rt ending;
                daku = normalizeDakuten kana;
                small = normalizeSmallKanaOn rt daku
            in small))"

subsection \<open>getShiritoriValidity\<close>

definition getShiritoriValidityOn ::
  "runtime \<Rightarrow> Pokemon option \<Rightarrow> Pokemon option \<Rightarrow> jsstring \<Rightarrow> bool" where
  "getShiritoriValidityOn rt prev next curr_str =
     (if trim curr_str = [] then True
      else (let normalizedCurr = normalizeOn rt curr_str;
                prevName = (case prev of None \<Rightarrow> [] | Some p \<Rightarrow> jpName p);
                nextName = (case next of None \<Rightarrow> [] | Some n \<Rightarrow> jpName n);
                prevMatch = (if prevName \<noteq> []
                             then (let lastChar = slice1 (normalizeOn rt prevName) (- 1)
                                   in startsWith normalizedCurr lastChar)
                             else True);
                nextMatch = (if nextName \<noteq> []
                             then (let firstChar = index (normalizeOn rt nextName) 0
                                   in endsWith normalizedCurr (toStringArg firstChar))
                             else True)
            in prevMatch \<and> nextMatch))"

section \<open>The runtime on kana names\<close>

text \<open>
  To compute the key of a name, the two functions of the runtime are written out for the
  code points the program is written for: ASCII, the Hiragana and Katakana blocks with
  the two combining sound marks, full-width ASCII and half-width katakana. On strings of
  these code points the functions below compute what the Unicode algorithms compute.
  They leave every other unit as it is, which the runtime does not; the keys they give
  are the keys of the program for names written with these code points.

  \<open>toLowerCase\<close> maps the capitals of ASCII and of full-width ASCII to their small
  letters.
\<close>

definition lowerUnit :: "codeunit \<Rightarrow> codeunit" where
  "lowerUnit u =
     (if (0x41 \<le> u \<and> u \<le> 0x5A) \<or> (0xFF21 \<le> u \<and> u \<le> 0xFF3A) then u + 0x20 else u)"

definition toLowerCase :: "jsstring \<Rightarrow> jsstring" where
  "toLowerCase s = map lowerUnit s"

text \<open>
  NFKC first replaces a unit by its compatibility mapping: full-width ASCII
  (U+FF01 to U+FF5E) by ASCII, half-width katakana and punctuation (U+FF61 to U+FF9F)
  by the standard forms, the ideographic space by a space, the spacing sound marks
  U+309B and U+309C by a space and the combining mark, and the digraphs U+309F and
  U+30FF by their two kana.
\<close>

definition compatTable :: "(codeunit \<times> jsstring) list" where
  "compatTable = [
    (0x3000, [0x0020]), (0x309B, [0x0020, 0x3099]), (0x309C, [0x0020, 0x309A]), (0x309F, [0x3088, 0x308A]),
    (0x30FF, [0x30B3, 0x30C8]), (0xFF61, [0x3002]), (0xFF62, [0x300C]), (0xFF63, [0x300D]),
    (0xFF64, [0x3001]), (0xFF65, [0x30FB]), (0xFF66, [0x30F2]), (0xFF67, [0x30A1]),
    (0xFF68, [0x30A3]), (0xFF69, [0x30A5]), (0xFF6A, [0x30A7]), (0xFF6B, [0x30A9]),
    (0xFF6C, [0x30E3]), (0xFF6D, [0x30E5]), (0xFF6E, [0x30E7]), (0xFF6F, [0x30C3]),
    (0xFF70, [0x30FC]), (0xFF71, [0x30A2]), (0xFF72, [0x30A4]), (0xFF73, [0x30A6]),
    (0xFF74, [0x30A8]), (0xFF75, [0x30AA]), (0xFF76, [0x30AB]), (0xFF77, [0x30AD]),
    (0xFF78, [0x30AF]), (0xFF79, [0x30B1]), (0xFF7A, [0x30B3]), (0xFF7B, [0x30B5]),
    (0xFF7C, [0x30B7]), (0xFF7D, [0x30B9]), (0xFF7E, [0x30BB]), (0xFF7F, [0x30BD]),
    (0xFF80, [0x30BF]), (0xFF81, [0x30C1]), (0xFF82, [0x30C4]), (0xFF83, [0x30C6]),
    (0xFF84, [0x30C8]), (0xFF85, [0x30CA]), (0xFF86, [0x30CB]), (0xFF87, [0x30CC]),
    (0xFF88, [0x30CD]), (0xFF89, [0x30CE]), (0xFF8A, [0x30CF]), (0xFF8B, [0x30D2]),
    (0xFF8C, [0x30D5]), (0xFF8D, [0x30D8]), (0xFF8E, [0x30DB]), (0xFF8F, [0x30DE]),
    (0xFF90, [0x30DF]), (0xFF91, [0x30E0]), (0xFF92, [0x30E1]), (0xFF93, [0x30E2]),
    (0xFF94, [0x30E4]), (0xFF95, [0x30E6]), (0xFF96, [0x30E8]), (0xFF97, [0x30E9]),
    (0xFF98, [0x30EA]), (0xFF99, [0x30EB]), (0xFF9A, [0x30EC]), (0xFF9B, [0x30ED]),
    (0xFF9C, [0x30EF]), (0xFF9D, [0x30F3]), (0xFF9E, [0x3099]), (0xFF9F, [0x309A])]"

definition compat :: "codeunit \<Rightarrow> jsstring" where
  "compat u =
     (if 0xFF01 \<le> u \<and> u \<le> 0xFF5E then [u - 0xFEE0]
      else (case map_of compatTable u of Some v \<Rightarrow> v | None \<Rightarrow> [u]))"

text \<open>
  NFKC then composes a kana and a combining sound mark that follows it, U+3099 (voiced)
  or U+309A (semi-voiced), into the precomposed kana where Unicode has one. A
  precomposed kana is decomposed and composed again, which leaves it as it is; a second
  mark after it stays.
\<close>

definition voicedTable :: "(codeunit \<times> codeunit) list" where
  "voicedTable = [
    (0x3046, 0x3094), (0x304B, 0x304C), (0x304D, 0x304E), (0x304F, 0x3050),
    (0x3051, 0x3052), (0x3053, 0x3054), (0x3055, 0x3056), (0x3057, 0x3058),
    (0x3059, 0x305A), (0x305B, 0x305C), (0x305D, 0x305E), (0x305F, 0x3060),
    (0x3061, 0x3062), (0x3064, 0x3065), (0x3066, 0x3067), (0x3068, 0x3069),
    (0x306F, 0x3070), (0x3072, 0x3073), (0x3075, 0x3076), (0x3078, 0x3079),
    (0x307B, 0x307C), (0x309D, 0x309E), (0x30A6, 0x30F4), (0x30AB, 0x30AC),
    (0x30AD, 0x30AE), (0x30AF, 0x30B0), (0x30B1, 0x30B2), (0x30B3, 0x30B4),
    (0x30B5, 0x30B6), (0x30B7, 0x30B8), (0x30B9, 0x30BA), (0x30BB, 0x30BC),
    (0x30BD, 0x30BE), (0x30BF, 0x30C0), (0x30C1, 0x30C2), (0x30C4, 0x30C5),
    (0x30C6, 0x30C7), (0x30C8, 0x30C9), (0x30CF, 0x30D0), (0x30D2, 0x30D3),
    (0x30D5, 0x30D6), (0x30D8, 0x30D9), (0x30DB, 0x30DC), (0x30EF, 0x30F7),
    (0x30F0, 0x30F8), (0x30F1, 0x30F9), (0x30F2, 0x30FA), (0x30FD, 0x30FE)]"

definition semiVoicedTable :: "(codeunit \<times> codeunit) list" where
  "semiVoicedTable = [
    (0x306F, 0x3071), (0x3072, 0x3074), (0x3075, 0x3077), (0x3078, 0x307A),
    (0x307B, 0x307D), (0x30CF, 0x30D1), (0x30D2, 0x30D4), (0x30D5, 0x30D7),
    (0x30D8, 0x30DA), (0x30DB, 0x30DD)]"

definition isMark :: "codeunit \<Rightarrow> bool" where
  "isMark u \<longleftrightarrow> u = 0x3099 \<or> u = 0x309A"

definition composePair :: "codeunit \<Rightarrow> codeunit \<Rightarrow> codeunit option" where
  "composePair x m =
     (if m = 0x3099 then map_of voicedTable x
      else if m = 0x309A then map_of semiVoicedTable x
      else None)"

fun compose :: "jsstring \<Rightarrow> jsstring" where
  "compose [] = []"
| "compose [x] = [x]"
| "compose (x # m # r) =
     (case composePair x m of
        Some z \<Rightarrow> compose (z # r)
      | None \<Rightarrow> x # compose (m # r))"

definition nfkc :: "jsstring \<Rightarrow> jsstring" where
  "nfkc s = compose (concat (map compat s))"

text \<open>The runtime on kana names, and the functions of the program on it.\<close>

definition kanaRuntime :: runtime where
  "kanaRuntime = \<lparr>nfkcOf = nfkc, lowerOf = toLowerCase\<rparr>"

definition normalizeEnding :: "jsstring \<Rightarrow> jsstring" where
  "normalizeEnding = normalizeEndingOn kanaRuntime"

definition normalizeKana :: "jsstring \<Rightarrow> jsstring" where
  "normalizeKana = normalizeKanaOn kanaRuntime"

definition normalizeSmallKana :: "jsstring \<Rightarrow> jsstring" where
  "normalizeSmallKana = normalizeSmallKanaOn kanaRuntime"

definition normalize :: "jsstring \<Rightarrow> jsstring" where
  "normalize = normalizeOn kanaRuntime"

definition getShiritoriValidity :: "Pokemon option \<Rightarrow> Pokemon option \<Rightarrow> jsstring \<Rightarrow> bool" where
  "getShiritoriValidity = getShiritoriValidityOn kanaRuntime"

text \<open>
  One code point outside the Basic Multilingual Plane has kana for its compatibility
  mapping: U+1F200, the surrogate pair U+D83C U+DE00, is mapped to the hiragana
  U+307B U+304B. \<open>hokaRuntime\<close> is the runtime on kana names with this mapping put before
  the others.
\<close>

fun squareHoka :: "jsstring \<Rightarrow> jsstring" where
  "squareHoka [] = []"
| "squareHoka [x] = [x]"
| "squareHoka (x # y # r) =
     (if x = 0xD83C \<and> y = 0xDE00 then 0x307B # 0x304B # squareHoka r
      else x # squareHoka (y # r))"

definition nfkcHoka :: "jsstring \<Rightarrow> jsstring" where
  "nfkcHoka s = nfkc (squareHoka s)"

definition hokaRuntime :: runtime where
  "hokaRuntime = \<lparr>nfkcOf = nfkcHoka, lowerOf = toLowerCase\<rparr>"

section \<open>Notions for stating the properties\<close>

subsection \<open>What each pass does to one unit\<close>

text \<open>
  The reading that the first pass puts in the place of a unit: the two keys of
  \<open>specialCases\<close> are replaced, every other unit stays.
\<close>

definition specialReading :: "codeunit \<Rightarrow> jsstring" where
  "specialReading u =
     (if u = 0xFF12 then [0x30C4, 0x30FC]
      else if u = 0xFF3A then [0x30BC, 0x30C3, 0x30C8]
      else [u])"

text \<open>The string without its trailing long-vowel marks, U+30FC.\<close>

definition stripMarks :: "jsstring \<Rightarrow> jsstring" where
  "stripMarks t = rev (dropWhile (\<lambda>u. u = 0x30FC) (rev t))"

text \<open>The hiragana of the third pass are the units from U+3041 to U+3096.\<close>

definition isHiragana :: "codeunit \<Rightarrow> bool" where
  "isHiragana u \<longleftrightarrow> 0x3041 \<le> u \<and> u \<le> 0x3096"

definition shiftUnit :: "codeunit \<Rightarrow> codeunit" where
  "shiftUnit u = (if 0x3041 \<le> u \<and> u \<le> 0x3096 then u + 0x60 else u)"

text \<open>The base form of a unit in \<open>dakutenMap\<close>, and the unit itself when it has no entry.\<close>

definition devoiceUnit :: "codeunit \<Rightarrow> codeunit" where
  "devoiceUnit u = (case dakutenMap u of Some (v # _) \<Rightarrow> v | _ \<Rightarrow> u)"

text \<open>The full-size form of a unit that \<open>isSmallKana\<close> accepts, by \<open>smallKanaMap\<close>.\<close>

definition expandUnit :: "codeunit \<Rightarrow> codeunit" where
  "expandUnit u =
     (if u \<in> set smallHira \<or> u \<in> set smallKata
      then (case smallKanaMap [u] of Some (v # _) \<Rightarrow> v | _ \<Rightarrow> u) else u)"

text \<open>
  A small form is a unit that \<open>isSmallKana\<close> accepts or that is a key of
  \<open>smallKanaMap\<close>: the small vowels, small tsu, the small ya row, small wa and small
  ka and ke, in both scripts.
\<close>

definition smallForm :: "codeunit \<Rightarrow> bool" where
  "smallForm u \<longleftrightarrow> isSmallKana [u] \<or> smallKanaMap [u] \<noteq> None"

subsection \<open>The values inside a run of normalize\<close>

text \<open>
  The values of the variables \<open>ending\<close> and \<open>daku\<close> in \<open>normalize(s)\<close>: what the second
  pass returns, which the third pass takes, and what the fourth pass returns, which the
  fifth pass takes.
\<close>

definition endingOn :: "runtime \<Rightarrow> jsstring \<Rightarrow> jsstring" where
  "endingOn rt s = normalizeEndingOn rt (normalizeSpecialCases s)"

definition dakuOn :: "runtime \<Rightarrow> jsstring \<Rightarrow> jsstring" where
  "dakuOn rt s = normalizeDakuten (normalizeKanaOn rt (endingOn rt s))"

subsection \<open>Strings from which width normalisation makes hiragana\<close>

text \<open>
  \<open>adjacent a b x\<close>: the unit \<open>a\<close> stands directly before the unit \<open>b\<close> somewhere in \<open>x\<close>.
\<close>

fun adjacent :: "codeunit \<Rightarrow> codeunit \<Rightarrow> jsstring \<Rightarrow> bool" where
  "adjacent a b [] = False"
| "adjacent a b [x] = False"
| "adjacent a b (x # y # r) = ((x = a \<and> y = b) \<or> adjacent a b (y # r))"

text \<open>
  In Unicode the code points whose normalisation form KC has a hiragana are the hiragana
  themselves and two more: the digraph U+309F, mapped to U+3088 U+308A, and U+1F200,
  mapped to U+307B U+304B. In a string of UTF-16 units U+1F200 is the high surrogate
  U+D83C directly before the low surrogate U+DE00. \<open>yieldsHiragana x\<close> says that \<open>x\<close> has
  one of these code points.
\<close>

definition yieldsHiragana :: "jsstring \<Rightarrow> bool" where
  "yieldsHiragana x \<longleftrightarrow>
     (\<exists>u\<in>set x. isHiragana u \<or> u = 0x309F) \<or> adjacent 0xD83C 0xDE00 x"

subsection \<open>Units under width normalisation\<close>

text \<open>
  A unit is stable when its compatibility mapping is the unit itself, and clean when it
  is stable and no combining sound mark. Width normalisation leaves a string of clean
  units as it is.
\<close>

definition stable :: "codeunit \<Rightarrow> bool" where
  "stable u \<longleftrightarrow> compat u = [u]"

definition clean :: "codeunit \<Rightarrow> bool" where
  "clean u \<longleftrightarrow> stable u \<and> \<not> isMark u"

definition settled :: "codeunit \<Rightarrow> bool" where
  "settled u \<longleftrightarrow> stable u \<and> \<not> isHiragana u"

definition folded :: "codeunit \<Rightarrow> bool" where
  "folded u \<longleftrightarrow> clean u \<and> \<not> isHiragana u \<and> lowerUnit u = u"

subsection \<open>Canonical keys and unmatched units\<close>

text \<open>
  A canonical key: every unit is in standard width, no hiragana, no capital letter and
  no small form, no combining sound mark is left, the key does not end with the
  long-vowel mark, and its first and last units have no entry in \<open>dakutenMap\<close>.
\<close>

definition canonical :: "jsstring \<Rightarrow> bool" where
  "canonical k \<longleftrightarrow>
     (\<forall>u\<in>set k. folded u \<and> expandUnit u = u) \<and>
     (k \<noteq> [] \<longrightarrow> last k \<noteq> 0x30FC \<and> devoiceUnit (hd k) = hd k \<and> devoiceUnit (last k) = last k)"

text \<open>
  A unit that no table and no rule of the five passes matches: it is no key of
  \<open>specialCases\<close>, not the long-vowel mark, outside the hiragana range of the third pass,
  no key of \<open>dakutenMap\<close> and not accepted by \<open>isSmallKana\<close>. What the runtime does with
  the unit is no part of this notion.
\<close>

definition unmatched :: "codeunit \<Rightarrow> bool" where
  "unmatched u \<longleftrightarrow>
     u \<notin> fst ` set specialCases \<and> u \<noteq> 0x30FC \<and> \<not> (0x3041 \<le> u \<and> u \<le> 0x3096) \<and>
     dakutenMap u = None \<and> \<not> isSmallKana [u]"

section \<open>Properties of the passes\<close>

subsection \<open>The passes as list functions\<close>

text \<open>
  Each pass of the source is shown equal to a function on lists: a substitution unit by
  unit, the removal of the trailing marks, a map over the units. The properties are
  proved on these forms.
\<close>

lemma split_not_Nil: "split s sep \<noteq> []"
  by (induction s) (auto split: list.splits)

lemma join_Cons1: "join ((x # p) # ps) to = x # join (p # ps) to"
  by (cases ps) auto

lemma join_Nil_Cons: "ps \<noteq> [] \<Longrightarrow> join ([] # ps) to = to @ join ps to"
  by (cases ps) auto

lemma join_split: "join (split s sep) to = concat (map (\<lambda>u. if u = sep then to else [u]) s)"
proof (induction s)
  case Nil
  show ?case by simp
next
  case (Cons x xs)
  show ?case
  proof (cases "x = sep")
    case True
    then show ?thesis using Cons by (simp add: join_Nil_Cons split_not_Nil)
  next
    case False
    obtain p ps where sp: "split xs sep = p # ps"
      using split_not_Nil [of xs sep] by (cases "split xs sep") auto
    with False Cons show ?thesis by (simp add: join_Cons1)
  qed
qed

lemma normalizeSpecialCases_eq: "normalizeSpecialCases s = concat (map specialReading s)"
proof -
  have "concat (map (\<lambda>u. if u = 0xFF3A then [0x30BC, 0x30C3, 0x30C8] else [u])
            (concat (map (\<lambda>u. if u = 0xFF12 then [0x30C4, 0x30FC] else [u]) s)))
        = concat (map specialReading s)"
    by (induction s) (simp_all add: specialReading_def)
  then show ?thesis
    by (simp add: normalizeSpecialCases_def specialCases_def join_split)
qed

lemma stripMarks_Nil [simp]: "stripMarks [] = []"
  by (simp add: stripMarks_def)

lemma stripMarks_snoc:
  "stripMarks (t @ [u]) = (if u = 0x30FC then stripMarks t else t @ [u])"
  by (simp add: stripMarks_def)

lemma loop_take:
  "- 1 \<le> e \<Longrightarrow> e < int (length nk) \<Longrightarrow>
   - 1 \<le> normalizeEnding_loop nk e \<and> normalizeEnding_loop nk e \<le> e \<and>
   take (nat (normalizeEnding_loop nk e + 1)) nk = stripMarks (take (nat (e + 1)) nk)"
proof (induction nk e rule: normalizeEnding_loop.induct)
  case (1 nk e)
  show ?case
  proof (cases "e \<ge> 0")
    case False
    with "1.prems" have "e = - 1" by simp
    then show ?thesis by (simp add: normalizeEnding_loop.simps)
  next
    case True
    then have lt: "nat e < length nk" using "1.prems" by simp
    have tk: "take (nat (e + 1)) nk = take (nat e) nk @ [nk ! nat e]"
      using True lt by (simp add: nat_add_distrib take_Suc_conv_app_nth)
    show ?thesis
    proof (cases "nk ! nat e = 0x30FC")
      case m: True
      have ih: "- 1 \<le> normalizeEnding_loop nk (e - 1) \<and> normalizeEnding_loop nk (e - 1) \<le> e - 1 \<and>
            take (nat (normalizeEnding_loop nk (e - 1) + 1)) nk = stripMarks (take (nat (e - 1 + 1)) nk)"
        using "1.IH" [OF True m] True "1.prems" by simp
      have "normalizeEnding_loop nk e = normalizeEnding_loop nk (e - 1)"
        using True m by (subst normalizeEnding_loop.simps) simp
      with ih tk m show ?thesis by (simp add: stripMarks_snoc)
    next
      case m: False
      have "normalizeEnding_loop nk e = e"
        using True m by (subst normalizeEnding_loop.simps) simp
      with tk m True show ?thesis by (simp add: stripMarks_snoc)
    qed
  qed
qed

lemma slice_take: "0 \<le> n \<Longrightarrow> n \<le> int (length s) \<Longrightarrow> slice s 0 n = take (nat n) s"
  by (simp add: slice_def Let_def min_def)

lemma normalizeEndingOn_eq:
  "normalizeEndingOn rt s = (if s = [] then [] else stripMarks (nfkcOf rt s))"
proof (cases "s = []")
  case True
  then show ?thesis by (simp add: normalizeEndingOn_def)
next
  case False
  let ?nk = "nfkcOf rt s"
  let ?e = "normalizeEnding_loop ?nk (int (length ?nk) - 1)"
  have l: "- 1 \<le> ?e \<and> ?e \<le> int (length ?nk) - 1 \<and>
           take (nat (?e + 1)) ?nk = stripMarks (take (nat (int (length ?nk) - 1 + 1)) ?nk)"
    by (rule loop_take) simp_all
  then have "slice ?nk 0 (?e + 1) = take (nat (?e + 1)) ?nk"
    by (intro slice_take) simp_all
  with l False show ?thesis by (simp add: normalizeEndingOn_def Let_def)
qed

lemma kanaRuntime_simps [simp]: "nfkcOf kanaRuntime = nfkc" "lowerOf kanaRuntime = toLowerCase"
  by (simp_all add: kanaRuntime_def)

lemma normalizeEnding_eq: "normalizeEnding s = (if s = [] then [] else stripMarks (nfkc s))"
  by (simp add: normalizeEnding_def normalizeEndingOn_eq)

lemma concat_map_codePoints:
  assumes one: "\<And>x. f [x] = [g x]"
    and two: "\<And>x y. isHighSurrogate x \<Longrightarrow> isLowSurrogate y \<Longrightarrow> f [x, y] = [g x, g y]"
  shows "concat (map f (codePoints s)) = map g s"
  by (induction s rule: codePoints.induct) (simp_all add: one two)

lemma nfkc_Nil [simp]: "nfkc [] = []"
  by (simp add: nfkc_def)

lemma isSmallKana_single: "isSmallKana [x] \<longleftrightarrow> x \<in> set smallHira \<or> x \<in> set smallKata"
  by (simp add: isSmallKana_def smallHira_def smallKata_def startsWith_def)

lemma isSmallKana_pair: "isHighSurrogate x \<Longrightarrow> \<not> isSmallKana [x, y]"
  by (simp add: isSmallKana_def smallHira_def smallKata_def startsWith_def isHighSurrogate_def)

lemma smallKanaMap_value:
  "smallKanaMap k = Some v \<Longrightarrow> \<exists>a b. k = [a] \<and> v = [b]"
  by (auto simp: smallKanaMap_def smallKanaTable_def split: if_splits)

lemma dakutenMap_value: "dakutenMap u = Some v \<Longrightarrow> \<exists>b. v = [b]"
  by (auto simp: dakutenMap_def dakutenTable_def split: if_splits)

lemma orElse_dakuten: "orElse (dakutenMap u) [u] = [devoiceUnit u]"
  by (cases "dakutenMap u") (auto simp: orElse_def devoiceUnit_def dest: dakutenMap_value)

lemma small_single:
  "(case (if isSmallKana [x] then smallKanaMap [x] else None) of
      Some v \<Rightarrow> (if v = [] then [x] else v) | None \<Rightarrow> [x])
   = [expandUnit x]"
  by (cases "smallKanaMap [x]")
     (auto simp: isSmallKana_single expandUnit_def dest: smallKanaMap_value)

lemma expandUnit_surrogate: "0xD800 \<le> x \<Longrightarrow> expandUnit x = x"
  by (auto simp: expandUnit_def smallHira_def smallKata_def)

lemma normalizeSmallKanaOn_eq:
  "normalizeSmallKanaOn rt s = (if s = [] then [] else map expandUnit (nfkcOf rt s))"
proof (cases "s = []")
  case True
  then show ?thesis by (simp add: normalizeSmallKanaOn_def)
next
  case False
  have "concat (map (\<lambda>ch. case (if isSmallKana ch then smallKanaMap ch else None) of
                             Some v \<Rightarrow> (if v = [] then ch else v) | None \<Rightarrow> ch)
                    (codePoints (nfkcOf rt s)))
        = map expandUnit (nfkcOf rt s)"
    by (rule concat_map_codePoints)
       (simp_all add: small_single isSmallKana_pair expandUnit_surrogate
          isHighSurrogate_def isLowSurrogate_def)
  with False show ?thesis by (simp add: normalizeSmallKanaOn_def)
qed

lemma normalizeSmallKana_eq: "normalizeSmallKana s = map expandUnit (nfkc s)"
  by (simp add: normalizeSmallKana_def normalizeSmallKanaOn_eq)

lemma normalizeKanaOn_eq:
  "normalizeKanaOn rt s = (if s = [] then [] else lowerOf rt (map shiftUnit (nfkcOf rt s)))"
proof (cases "s = []")
  case True
  then show ?thesis by (simp add: normalizeKanaOn_def)
next
  case False
  have "concat (map (\<lambda>ch. let code = hd ch in
                       if code \<ge> 0x3041 \<and> code \<le> 0x3096 then [code + 0x60] else ch)
                    (codePoints (nfkcOf rt s)))
        = map shiftUnit (nfkcOf rt s)"
    by (rule concat_map_codePoints)
       (auto simp: shiftUnit_def isHighSurrogate_def isLowSurrogate_def)
  with False show ?thesis by (simp add: normalizeKanaOn_def)
qed

lemma normalizeKana_eq: "normalizeKana s = map (lowerUnit \<circ> shiftUnit) (nfkc s)"
  by (simp add: normalizeKana_def normalizeKanaOn_eq toLowerCase_def)

lemma normalizeDakuten_eq:
  "normalizeDakuten s =
     map (\<lambda>i. if i = 0 \<or> Suc i = length s then devoiceUnit (s ! i) else s ! i) [0..<length s]"
proof -
  have "\<And>i. i < length s \<Longrightarrow> (int i = int (length s) - 1) = (Suc i = length s)"
    by auto
  then have "map (\<lambda>i. let ch = s ! i in
                    if i = 0 \<or> int i = int (length s) - 1 then orElse (dakutenMap ch) [ch]
                    else [ch]) [0..<length s]
        = map (\<lambda>i. [if i = 0 \<or> Suc i = length s then devoiceUnit (s ! i) else s ! i]) [0..<length s]"
    by (intro map_cong) (auto simp: orElse_dakuten Let_def)
  then have "normalizeDakuten s
        = concat (map (\<lambda>i. [if i = 0 \<or> Suc i = length s then devoiceUnit (s ! i) else s ! i]) [0..<length s])"
    by (simp only: normalizeDakuten_def)
  also have "\<dots> = map (\<lambda>i. if i = 0 \<or> Suc i = length s then devoiceUnit (s ! i) else s ! i) [0..<length s]"
    by (induction "[0..<length s]") (simp_all add: concat_map_singleton)
  finally show ?thesis .
qed

lemma length_normalizeDakuten [simp]: "length (normalizeDakuten s) = length s"
  by (simp add: normalizeDakuten_eq)

lemma nth_normalizeDakuten:
  "i < length s \<Longrightarrow>
   normalizeDakuten s ! i = (if i = 0 \<or> Suc i = length s then devoiceUnit (s ! i) else s ! i)"
  by (simp add: normalizeDakuten_eq)

lemma normalizeOn_eq:
  "normalizeOn rt s =
     (if s = [] then []
      else normalizeSmallKanaOn rt (normalizeDakuten (normalizeKanaOn rt
             (normalizeEndingOn rt (normalizeSpecialCases s)))))"
  by (simp add: normalizeOn_def Let_def)

lemma normalize_eq:
  "normalize s =
     map expandUnit (nfkc (normalizeDakuten
       (map (lowerUnit \<circ> shiftUnit) (nfkc (normalizeEnding (normalizeSpecialCases s))))))"
proof (cases "s = []")
  case True
  then show ?thesis
    by (simp add: normalize_def normalizeOn_def normalizeSpecialCases_def normalizeEnding_eq
        normalizeDakuten_def)
next
  case False
  then have "normalize s = normalizeSmallKana (normalizeDakuten (normalizeKana
                   (normalizeEnding (normalizeSpecialCases s))))"
    by (simp add: normalize_def normalizeOn_def Let_def normalizeSmallKana_def normalizeKana_def
        normalizeEnding_def)
  then show ?thesis by (simp add: normalizeSmallKana_eq normalizeKana_eq)
qed

subsection \<open>Width normalisation\<close>

lemma compat_low:
  "u < 0xFF01 \<Longrightarrow> u \<noteq> 0x3000 \<Longrightarrow> u \<noteq> 0x309B \<Longrightarrow> u \<noteq> 0x309C \<Longrightarrow> u \<noteq> 0x309F \<Longrightarrow>
   u \<noteq> 0x30FF \<Longrightarrow> compat u = [u]"
  by (simp add: compat_def compatTable_def)

lemma stable_low:
  "u < 0xFF01 \<Longrightarrow> u \<noteq> 0x3000 \<Longrightarrow> u \<noteq> 0x309B \<Longrightarrow> u \<noteq> 0x309C \<Longrightarrow> u \<noteq> 0x309F \<Longrightarrow>
   u \<noteq> 0x30FF \<Longrightarrow> stable u"
  by (simp add: stable_def compat_low)

lemma compatTable_values:
  assumes "map_of compatTable u = Some w" and "v \<in> set w"
  shows "v < 0xFF01 \<and> v \<noteq> 0x3000 \<and> v \<noteq> 0x309B \<and> v \<noteq> 0x309C \<and> v \<noteq> 0x309F \<and> v \<noteq> 0x30FF"
proof -
  from assms(1) have "(u, w) \<in> set compatTable" by (rule map_of_SomeD)
  with assms(2) show ?thesis by (auto simp: compatTable_def)
qed

lemma compat_stable: "v \<in> set (compat u) \<Longrightarrow> stable v"
proof (cases "0xFF01 \<le> u \<and> u \<le> 0xFF5E")
  case True
  assume "v \<in> set (compat u)"
  with True have "v = u - 0xFEE0" by (simp add: compat_def)
  with True show ?thesis by (intro stable_low) auto
next
  case False
  assume v: "v \<in> set (compat u)"
  from False have c: "compat u = (case map_of compatTable u of Some w \<Rightarrow> w | None \<Rightarrow> [u])"
    by (auto simp: compat_def)
  show ?thesis
  proof (cases "map_of compatTable u")
    case None
    with c v have "compat v = [v]" by simp
    then show ?thesis by (simp add: stable_def)
  next
    case (Some w)
    with c v have "v \<in> set w" by simp
    from compatTable_values [OF Some this] show ?thesis by (intro stable_low) auto
  qed
qed

lemma composePair_mark: "composePair x m = Some z \<Longrightarrow> isMark m"
  by (auto simp: composePair_def isMark_def split: if_splits)

lemma voicedTable_values:
  assumes "map_of voicedTable x = Some z"
  shows "0x3041 \<le> z \<and> z \<le> 0x30FE \<and> z \<noteq> 0x3099 \<and> z \<noteq> 0x309A \<and> z \<noteq> 0x309B \<and> z \<noteq> 0x309C \<and>
   z \<noteq> 0x309F \<and> z \<noteq> 0x30FC \<and> (isHiragana z \<longrightarrow> isHiragana x)"
proof -
  from assms have "(x, z) \<in> set voicedTable" by (rule map_of_SomeD)
  then show ?thesis by (auto simp: voicedTable_def isHiragana_def)
qed

lemma semiVoicedTable_values:
  assumes "map_of semiVoicedTable x = Some z"
  shows "0x3041 \<le> z \<and> z \<le> 0x30FE \<and> z \<noteq> 0x3099 \<and> z \<noteq> 0x309A \<and> z \<noteq> 0x309B \<and> z \<noteq> 0x309C \<and>
   z \<noteq> 0x309F \<and> z \<noteq> 0x30FC \<and> (isHiragana z \<longrightarrow> isHiragana x)"
proof -
  from assms have "(x, z) \<in> set semiVoicedTable" by (rule map_of_SomeD)
  then show ?thesis by (auto simp: semiVoicedTable_def isHiragana_def)
qed

lemma composePair_values:
  "composePair x m = Some z \<Longrightarrow>
   0x3041 \<le> z \<and> z \<le> 0x30FE \<and> z \<noteq> 0x3099 \<and> z \<noteq> 0x309A \<and> z \<noteq> 0x309B \<and> z \<noteq> 0x309C \<and>
   z \<noteq> 0x309F \<and> z \<noteq> 0x30FC \<and> (isHiragana z \<longrightarrow> isHiragana x)"
  using voicedTable_values [of x z] semiVoicedTable_values [of x z]
  by (simp add: composePair_def split: if_splits)

lemma composePair_stable: "composePair x m = Some z \<Longrightarrow> stable z"
  using composePair_values [of x m z] by (intro stable_low) auto

lemma compose_no_mark: "\<forall>u\<in>set xs. \<not> isMark u \<Longrightarrow> compose xs = xs"
proof (induction xs rule: compose.induct)
  case (3 x m r)
  have "composePair x m = None"
  proof (cases "composePair x m")
    case (Some z)
    from composePair_mark [OF this] "3.prems" show ?thesis by simp
  qed simp
  with 3 show ?case by simp
qed simp_all

lemma compose_pred:
  assumes step: "\<And>x m z. composePair x m = Some z \<Longrightarrow> P x \<Longrightarrow> P z"
  shows "\<forall>u\<in>set xs. P u \<Longrightarrow> \<forall>u\<in>set (compose xs). P u"
proof (induction xs rule: compose.induct)
  case (3 x m r)
  show ?case
  proof (cases "composePair x m")
    case None
    with "3.IH"(1) "3.prems" show ?thesis by simp
  next
    case (Some z)
    with "3.prems" have "P z" by (auto intro: step)
    with "3.prems" have "\<forall>u\<in>set (z # r). P u" by simp
    with "3.IH"(2) [OF Some] Some show ?thesis by simp
  qed
qed simp_all

lemma nfkc_stable: "u \<in> set (nfkc s) \<Longrightarrow> stable u"
proof -
  have "\<forall>u\<in>set (concat (map compat s)). stable u"
    by (auto intro: compat_stable)
  then have "\<forall>u\<in>set (compose (concat (map compat s))). stable u"
    by (rule compose_pred [rotated]) (rule composePair_stable)
  then show "u \<in> set (nfkc s) \<Longrightarrow> stable u" by (simp add: nfkc_def)
qed

lemma concat_compat_stable: "\<forall>u\<in>set s. stable u \<Longrightarrow> concat (map compat s) = s"
  by (induction s) (simp_all add: stable_def)

lemma nfkc_stable_compose: "\<forall>u\<in>set s. stable u \<Longrightarrow> nfkc s = compose s"
  by (simp add: nfkc_def concat_compat_stable)

lemma nfkc_clean: "\<forall>u\<in>set s. clean u \<Longrightarrow> nfkc s = s"
  by (simp add: nfkc_stable_compose compose_no_mark clean_def)

subsection \<open>The tables of the program\<close>

lemma stable_fullwidth: "0xFF01 \<le> u \<Longrightarrow> u \<le> 0xFF5E \<Longrightarrow> \<not> stable u"
  by (simp add: stable_def compat_def)

lemma specialReading_stable: "stable u \<Longrightarrow> specialReading u = [u]"
  using stable_fullwidth [of u] by (auto simp: specialReading_def)

lemma kana_folded: "0x30A1 \<le> u \<Longrightarrow> u \<le> 0x30FE \<Longrightarrow> folded u"
  by (simp add: folded_def clean_def isMark_def isHiragana_def lowerUnit_def stable_low)

lemma dakutenTable_values:
  assumes "dakutenMap u = Some w"
  shows "w = [hd w] \<and> 0x30AB \<le> hd w \<and> hd w \<le> 0x30DB \<and> dakutenMap (hd w) = None \<and>
         hd w \<notin> set smallKata \<and> 0x30AC \<le> u \<and> u \<le> 0x30DD \<and> u \<notin> set smallKata"
proof -
  from assms have "(u, w) \<in> set dakutenTable"
    unfolding dakutenMap_def by (rule map_of_SomeD)
  then have "(u, w) \<in> set dakutenTable \<and> u \<in> fst ` set dakutenTable" by force
  then show ?thesis
    unfolding dakutenTable_def
    by (elim conjE, simp only: set_simps insert_iff empty_iff Pair_inject, elim disjE conjE)
       (simp_all add: dakutenMap_def dakutenTable_def smallKata_def)
qed

lemma devoiceUnit_cases:
  "devoiceUnit u = u \<and> dakutenMap u = None \<or>
   0x30AB \<le> devoiceUnit u \<and> devoiceUnit u \<le> 0x30DB \<and> dakutenMap (devoiceUnit u) = None \<and>
     devoiceUnit u \<notin> set smallKata \<and> dakutenMap u \<noteq> None"
proof (cases "dakutenMap u")
  case None
  then show ?thesis by (simp add: devoiceUnit_def)
next
  case (Some w)
  from dakutenTable_values [OF this] have w: "w = [hd w]" and
    r: "0x30AB \<le> hd w \<and> hd w \<le> 0x30DB \<and> dakutenMap (hd w) = None \<and> hd w \<notin> set smallKata"
    by blast+
  from w Some have "devoiceUnit u = hd w"
    by (cases w) (simp_all add: devoiceUnit_def)
  with r Some show ?thesis by simp
qed

lemma devoiceUnit_idem: "devoiceUnit (devoiceUnit u) = devoiceUnit u"
  using devoiceUnit_cases [of u] by (auto simp: devoiceUnit_def [of "devoiceUnit u"])

lemma devoiceUnit_fixed: "devoiceUnit u = u \<longleftrightarrow> dakutenMap u = None"
  using devoiceUnit_cases [of u] by auto

lemma devoiceUnit_folded: "folded u \<Longrightarrow> folded (devoiceUnit u)"
  using devoiceUnit_cases [of u] by (auto intro: kana_folded)

lemma devoiceUnit_mark: "u \<noteq> 0x30FC \<Longrightarrow> devoiceUnit u \<noteq> 0x30FC"
  using devoiceUnit_cases [of u] by auto

lemma smallKanaTable_values:
  assumes "smallKanaMap [u] = Some w"
  shows "w = [hd w] \<and> dakutenMap (hd w) = None \<and> hd w \<noteq> 0x30FC \<and>
         hd w \<notin> set smallHira \<and> hd w \<notin> set smallKata \<and> smallKanaMap [hd w] = None \<and>
         (isHiragana u \<and> isHiragana (hd w) \<or>
          0x30A1 \<le> u \<and> u \<le> 0x30F6 \<and> 0x30A2 \<le> hd w \<and> hd w \<le> 0x30EF)"
proof -
  from assms have "([u], w) \<in> set smallKanaTable"
    unfolding smallKanaMap_def by (rule map_of_SomeD)
  then show ?thesis
    unfolding smallKanaTable_def
    by (simp only: set_simps insert_iff empty_iff Pair_inject list.inject, elim disjE conjE)
       (simp_all add: smallKanaMap_def smallKanaTable_def dakutenMap_def dakutenTable_def
          smallHira_def smallKata_def isHiragana_def)
qed

lemma smallKanaMap_dom:
  "u \<in> set smallHira \<or> u \<in> set smallKata \<Longrightarrow> smallKanaMap [u] \<noteq> None"
  unfolding smallHira_def smallKata_def
  by (simp only: set_simps insert_iff empty_iff, elim disjE)
     (simp_all add: smallKanaMap_def smallKanaTable_def)

lemma expandUnit_cases:
  "expandUnit u = u \<and> u \<notin> set smallHira \<and> u \<notin> set smallKata \<or>
   (u \<in> set smallHira \<or> u \<in> set smallKata) \<and>
   dakutenMap (expandUnit u) = None \<and> expandUnit u \<noteq> 0x30FC \<and>
   expandUnit u \<notin> set smallHira \<and> expandUnit u \<notin> set smallKata \<and>
   smallKanaMap [expandUnit u] = None \<and>
   (isHiragana u \<and> isHiragana (expandUnit u) \<or>
    0x30A1 \<le> u \<and> u \<le> 0x30F6 \<and> 0x30A2 \<le> expandUnit u \<and> expandUnit u \<le> 0x30EF)"
proof (cases "u \<in> set smallHira \<or> u \<in> set smallKata")
  case False
  then show ?thesis by (simp add: expandUnit_def)
next
  case True
  then obtain w where w: "smallKanaMap [u] = Some w"
    using smallKanaMap_dom [of u] by auto
  from smallKanaTable_values [OF w] have hw: "w = [hd w]" and
    r: "dakutenMap (hd w) = None \<and> hd w \<noteq> 0x30FC \<and>
         hd w \<notin> set smallHira \<and> hd w \<notin> set smallKata \<and> smallKanaMap [hd w] = None \<and>
         (isHiragana u \<and> isHiragana (hd w) \<or>
          0x30A1 \<le> u \<and> u \<le> 0x30F6 \<and> 0x30A2 \<le> hd w \<and> hd w \<le> 0x30EF)"
    by blast+
  from hw True w have "expandUnit u = hd w"
    by (cases w) (simp_all add: expandUnit_def)
  with r True show ?thesis by simp
qed

lemma expandUnit_idem: "expandUnit (expandUnit u) = expandUnit u"
  using expandUnit_cases [of u] by (auto simp: expandUnit_def [of "expandUnit u"])

lemma expandUnit_folded: "folded u \<Longrightarrow> folded (expandUnit u)"
proof -
  assume f: "folded u"
  then have "\<not> isHiragana u" by (simp add: folded_def)
  with expandUnit_cases [of u]
  have "expandUnit u = u \<or> 0x30A1 \<le> expandUnit u \<and> expandUnit u \<le> 0x30FE" by auto
  with f show ?thesis by (auto intro: kana_folded)
qed

lemma expandUnit_mark: "u \<noteq> 0x30FC \<Longrightarrow> expandUnit u \<noteq> 0x30FC"
  using expandUnit_cases [of u] by auto

lemma expandUnit_devoiced: "devoiceUnit u = u \<Longrightarrow> devoiceUnit (expandUnit u) = expandUnit u"
  using expandUnit_cases [of u] by (auto simp: devoiceUnit_fixed)

lemma smallKanaMap_keys: "smallKanaMap [u] = Some w \<Longrightarrow> isHiragana u \<or> u \<in> set smallKata"
proof -
  assume "smallKanaMap [u] = Some w"
  then have "([u], w) \<in> set smallKanaTable"
    unfolding smallKanaMap_def by (rule map_of_SomeD)
  then show ?thesis
    unfolding smallKanaTable_def
    by (simp only: set_simps insert_iff empty_iff Pair_inject list.inject, elim disjE conjE)
       (simp_all add: smallKata_def isHiragana_def)
qed

lemma expandUnit_not_small: "\<not> isHiragana u \<Longrightarrow> \<not> smallForm (expandUnit u)"
proof -
  assume h: "\<not> isHiragana u"
  have "u \<notin> set smallKata \<Longrightarrow> smallKanaMap [u] = None"
    using smallKanaMap_keys [of u] h by (cases "smallKanaMap [u]") auto
  with expandUnit_cases [of u] show ?thesis
    by (auto simp: smallForm_def isSmallKana_single)
qed

subsection \<open>The passes on settled and on clean strings\<close>

lemma kana_settled: "0x30A1 \<le> u \<Longrightarrow> u \<le> 0x30FE \<Longrightarrow> settled u"
  using kana_folded [of u] by (simp add: folded_def clean_def settled_def)

lemma shift_lower_settled: "stable u \<Longrightarrow> settled (lowerUnit (shiftUnit u))"
proof -
  assume st: "stable u"
  consider (h) "isHiragana u" | (a) "\<not> isHiragana u" "0x41 \<le> u \<and> u \<le> 0x5A"
    | (o) "\<not> isHiragana u" "\<not> (0x41 \<le> u \<and> u \<le> 0x5A)" by blast
  then show ?thesis
  proof cases
    case h
    then have "lowerUnit (shiftUnit u) = u + 0x60"
      by (simp add: isHiragana_def shiftUnit_def lowerUnit_def)
    with h show ?thesis by (auto intro: kana_settled simp: isHiragana_def)
  next
    case a
    then have "lowerUnit (shiftUnit u) = u + 0x20"
      by (simp add: isHiragana_def shiftUnit_def lowerUnit_def)
    with a show ?thesis by (auto simp: settled_def isHiragana_def intro!: stable_low)
  next
    case o
    with st stable_fullwidth [of u] have "lowerUnit (shiftUnit u) = u"
      by (auto simp: isHiragana_def shiftUnit_def lowerUnit_def)
    with o st show ?thesis by (simp add: settled_def)
  qed
qed

lemma shift_lower_facts:
  "(\<not> isMark u \<longrightarrow> \<not> isMark (lowerUnit (shiftUnit u))) \<and>
   lowerUnit (lowerUnit (shiftUnit u)) = lowerUnit (shiftUnit u) \<and>
   (u \<noteq> 0x30FC \<longrightarrow> lowerUnit (shiftUnit u) \<noteq> 0x30FC)"
  by (auto simp: isMark_def lowerUnit_def shiftUnit_def)

lemma shift_lower_folded: "clean u \<Longrightarrow> folded (lowerUnit (shiftUnit u))"
  using shift_lower_settled [of u] shift_lower_facts [of u]
  by (simp add: folded_def clean_def settled_def)

lemma devoiceUnit_settled: "settled u \<Longrightarrow> settled (devoiceUnit u)"
  using devoiceUnit_cases [of u] by (auto intro: kana_settled)

lemma expandUnit_settled: "settled u \<Longrightarrow> settled (expandUnit u)"
proof -
  assume s: "settled u"
  then have "\<not> isHiragana u" by (simp add: settled_def)
  with expandUnit_cases [of u]
  have "expandUnit u = u \<or> 0x30A1 \<le> expandUnit u \<and> expandUnit u \<le> 0x30FE" by auto
  with s show ?thesis by (auto intro: kana_settled)
qed

lemma composePair_settled: "composePair x m = Some z \<Longrightarrow> settled x \<Longrightarrow> settled z"
  using composePair_values [of x m z] composePair_stable [of x m z]
  by (simp add: settled_def)

lemma set_stripMarks: "set (stripMarks t) \<subseteq> set t"
  using set_dropWhileD [of _ "\<lambda>u. u = 0x30FC" "rev t"] by (auto simp: stripMarks_def)

lemma stripMarks_last: "stripMarks t \<noteq> [] \<Longrightarrow> last (stripMarks t) \<noteq> 0x30FC"
  using hd_dropWhile [of "\<lambda>u. u = 0x30FC" "rev t"]
  by (simp add: stripMarks_def last_rev)

lemma stripMarks_id: "t = [] \<or> last t \<noteq> 0x30FC \<Longrightarrow> stripMarks t = t"
  by (cases t rule: rev_cases) (simp_all add: stripMarks_def)

lemma takeWhile_eq_replicate: "takeWhile (\<lambda>u. u = a) xs = replicate (length (takeWhile (\<lambda>u. u = a) xs)) a"
  by (induction xs) simp_all

lemma stripMarks_replicate:
  "t = stripMarks t @ replicate (length (takeWhile (\<lambda>u. u = 0x30FC) (rev t))) 0x30FC"
proof -
  have "rev t = takeWhile (\<lambda>u. u = 0x30FC) (rev t) @ dropWhile (\<lambda>u. u = 0x30FC) (rev t)"
    by simp
  then have "t = rev (dropWhile (\<lambda>u. u = 0x30FC) (rev t)) @ rev (takeWhile (\<lambda>u. u = 0x30FC) (rev t))"
    by (metis rev_append rev_rev_ident)
  also have "rev (takeWhile (\<lambda>u. u = 0x30FC) (rev t))
      = replicate (length (takeWhile (\<lambda>u. u = 0x30FC) (rev t))) 0x30FC"
    by (subst takeWhile_eq_replicate) simp
  finally show ?thesis by (simp add: stripMarks_def)
qed

lemma normalizeDakuten_pred:
  assumes "\<forall>u\<in>set d. P u" and "\<And>u. P u \<Longrightarrow> P (devoiceUnit u)"
  shows "\<forall>u\<in>set (normalizeDakuten d). P u"
  using assms by (auto simp: normalizeDakuten_eq)

lemma normalizeDakuten_Nil [simp]: "normalizeDakuten [] = []"
  by (simp add: normalizeDakuten_eq)

lemma normalizeDakuten_Nil_iff [simp]: "normalizeDakuten d = [] \<longleftrightarrow> d = []"
  using length_normalizeDakuten [of d] by (metis length_0_conv)

lemma hd_normalizeDakuten: "d \<noteq> [] \<Longrightarrow> hd (normalizeDakuten d) = devoiceUnit (hd d)"
  by (simp add: hd_conv_nth nth_normalizeDakuten)

lemma last_normalizeDakuten: "d \<noteq> [] \<Longrightarrow> last (normalizeDakuten d) = devoiceUnit (last d)"
proof -
  assume d: "d \<noteq> []"
  then have "length d - 1 < length d" "Suc (length d - 1) = length d" by (simp_all add: Suc_leI)
  with d show ?thesis by (simp add: last_conv_nth nth_normalizeDakuten)
qed

lemma normalizeDakuten_id:
  assumes "d \<noteq> [] \<longrightarrow> devoiceUnit (hd d) = hd d \<and> devoiceUnit (last d) = last d"
  shows "normalizeDakuten d = d"
proof (rule nth_equalityI)
  show "length (normalizeDakuten d) = length d" by simp
next
  fix i assume "i < length (normalizeDakuten d)"
  then have i: "i < length d" by simp
  then have ne: "d \<noteq> []" by auto
  have "Suc i = length d \<Longrightarrow> d ! i = last d"
  proof -
    assume "Suc i = length d"
    then have "i = length d - 1" by simp
    with ne show ?thesis by (simp add: last_conv_nth)
  qed
  moreover have "i = 0 \<Longrightarrow> d ! i = hd d"
    using ne by (simp add: hd_conv_nth)
  ultimately show "normalizeDakuten d ! i = d ! i"
    using assms ne i by (auto simp: nth_normalizeDakuten)
qed

lemma folded_clean: "folded u \<Longrightarrow> clean u"
  by (simp add: folded_def)

lemma concat_specialReading: "\<forall>u\<in>set k. stable u \<Longrightarrow> concat (map specialReading k) = k"
  by (induction k) (simp_all add: specialReading_stable)

lemma normalizeSpecialCases_Nil_iff: "normalizeSpecialCases s = [] \<longleftrightarrow> s = []"
  by (cases s) (auto simp: normalizeSpecialCases_eq specialReading_def)

lemma normalize_canonical:
  assumes nm: "\<forall>u\<in>set (nfkc (normalizeSpecialCases s)). \<not> isMark u"
  shows "canonical (normalize s)"
proof -
  let ?b = "nfkc (normalizeSpecialCases s)"
  let ?c = "normalizeEnding (normalizeSpecialCases s)"
  let ?d = "map (lowerUnit \<circ> shiftUnit) ?c"
  let ?e = "normalizeDakuten ?d"
  have b: "\<forall>u\<in>set ?b. clean u"
    using nm nfkc_stable by (auto simp: clean_def)
  have cset: "set ?c \<subseteq> set ?b"
    using set_stripMarks [of ?b] by (auto simp: normalizeEnding_eq)
  with b have c: "\<forall>u\<in>set ?c. clean u" by auto
  have clast: "?c \<noteq> [] \<longrightarrow> last ?c \<noteq> 0x30FC"
    using stripMarks_last [of ?b] by (auto simp: normalizeEnding_eq)
  have nc: "nfkc ?c = ?c" using c by (rule nfkc_clean)
  have d: "\<forall>u\<in>set ?d. folded u" using c by (auto intro: shift_lower_folded)
  have dlast: "?d \<noteq> [] \<longrightarrow> last ?d \<noteq> 0x30FC"
    using clast shift_lower_facts by (auto simp: last_map)
  have e: "\<forall>u\<in>set ?e. folded u"
    using d by (rule normalizeDakuten_pred) (rule devoiceUnit_folded)
  then have ne: "nfkc ?e = ?e" by (intro nfkc_clean) (auto intro: folded_clean)
  have key: "normalize s = map expandUnit ?e"
    by (simp add: normalize_eq nc ne)
  have "\<forall>u\<in>set (map expandUnit ?e). folded u \<and> expandUnit u = u"
    using e by (auto intro: expandUnit_folded simp: expandUnit_idem)
  moreover have "map expandUnit ?e \<noteq> [] \<longrightarrow>
      last (map expandUnit ?e) \<noteq> 0x30FC \<and>
      devoiceUnit (hd (map expandUnit ?e)) = hd (map expandUnit ?e) \<and>
      devoiceUnit (last (map expandUnit ?e)) = last (map expandUnit ?e)"
  proof
    assume "map expandUnit ?e \<noteq> []"
    then have dne: "?d \<noteq> []" by simp
    then have ene: "?e \<noteq> []" by simp
    from dne dlast have "last ?e \<noteq> 0x30FC"
      by (simp add: last_normalizeDakuten devoiceUnit_mark)
    then have 1: "last (map expandUnit ?e) \<noteq> 0x30FC"
      using ene by (simp add: last_map expandUnit_mark)
    have "devoiceUnit (hd ?e) = hd ?e" "devoiceUnit (last ?e) = last ?e"
      using dne by (simp_all add: hd_normalizeDakuten last_normalizeDakuten devoiceUnit_idem)
    then have 2: "devoiceUnit (hd (map expandUnit ?e)) = hd (map expandUnit ?e)"
      and 3: "devoiceUnit (last (map expandUnit ?e)) = last (map expandUnit ?e)"
      using ene by (simp_all add: hd_map last_map expandUnit_devoiced)
    from 1 2 3 show "last (map expandUnit ?e) \<noteq> 0x30FC \<and>
      devoiceUnit (hd (map expandUnit ?e)) = hd (map expandUnit ?e) \<and>
      devoiceUnit (last (map expandUnit ?e)) = last (map expandUnit ?e)" by blast
  qed
  ultimately show ?thesis unfolding key canonical_def by blast
qed

subsection \<open>Keys of concrete names\<close>

lemma normalize_no_mark_eq:
  assumes nm: "\<forall>u\<in>set (nfkc (normalizeSpecialCases s)). \<not> isMark u"
  shows "normalize s =
     map expandUnit (normalizeDakuten (map (lowerUnit \<circ> shiftUnit)
       (stripMarks (nfkc (normalizeSpecialCases s)))))"
proof -
  let ?b = "nfkc (normalizeSpecialCases s)"
  let ?c = "normalizeEnding (normalizeSpecialCases s)"
  let ?d = "map (lowerUnit \<circ> shiftUnit) ?c"
  let ?e = "normalizeDakuten ?d"
  have ceq: "?c = stripMarks ?b"
    by (simp add: normalizeEnding_eq)
  have b: "\<forall>u\<in>set ?b. clean u"
    using nm nfkc_stable by (auto simp: clean_def)
  have "set ?c \<subseteq> set ?b"
    using set_stripMarks [of ?b] by (simp add: ceq)
  with b have c: "\<forall>u\<in>set ?c. clean u" by auto
  have nc: "nfkc ?c = ?c" using c by (rule nfkc_clean)
  have d: "\<forall>u\<in>set ?d. folded u" using c by (auto intro: shift_lower_folded)
  have e: "\<forall>u\<in>set ?e. folded u"
    using d by (rule normalizeDakuten_pred) (rule devoiceUnit_folded)
  then have ne: "nfkc ?e = ?e" by (intro nfkc_clean) (auto intro: folded_clean)
  show ?thesis
    by (simp add: normalize_eq nc ne flip: ceq)
qed

lemma clean_low:
  "u < 0xFF01 \<Longrightarrow> u \<noteq> 0x3000 \<Longrightarrow> u \<noteq> 0x3099 \<Longrightarrow> u \<noteq> 0x309A \<Longrightarrow> u \<noteq> 0x309B \<Longrightarrow>
   u \<noteq> 0x309C \<Longrightarrow> u \<noteq> 0x309F \<Longrightarrow> u \<noteq> 0x30FF \<Longrightarrow> clean u"
  by (simp add: clean_def isMark_def stable_low)

lemmas pass_simps =
  normalizeSpecialCases_eq specialReading_def stripMarks_def normalizeDakuten_eq upt_rec
  devoiceUnit_def dakutenMap_def dakutenTable_def expandUnit_def smallHira_def smallKata_def
  smallKanaMap_def smallKanaTable_def lowerUnit_def shiftUnit_def

lemmas nfkc_simps =
  nfkc_def compat_low composePair_def voicedTable_def semiVoicedTable_def

lemma normalize_small_ka_mark: "normalize [0x30F5, 0x3099] = [0x30AB, 0x3099]"
  by (simp add: normalize_eq normalizeEnding_eq pass_simps nfkc_simps)

lemma normalize_ka_mark: "normalize [0x30AB, 0x3099] = [0x30AB]"
  by (simp add: normalize_eq normalizeEnding_eq pass_simps nfkc_simps)

lemma nfkc_halfwidth_ga: "nfkc (normalizeSpecialCases [0xFF76, 0xFF9E, 0xFF70]) = [0x30AC, 0x30FC]"
  by (simp add: normalizeSpecialCases_eq specialReading_def nfkc_def compat_def compatTable_def
      composePair_def voicedTable_def)

lemma normalize_clean_eq:
  assumes "\<forall>u\<in>set (normalizeSpecialCases s). clean u"
  shows "normalize s =
     map expandUnit (normalizeDakuten (map (lowerUnit \<circ> shiftUnit)
       (stripMarks (normalizeSpecialCases s))))"
proof -
  have n: "nfkc (normalizeSpecialCases s) = normalizeSpecialCases s"
    using assms by (rule nfkc_clean)
  with assms have "\<forall>u\<in>set (nfkc (normalizeSpecialCases s)). \<not> isMark u"
    by (simp add: clean_def)
  from normalize_no_mark_eq [OF this] n show ?thesis by simp
qed

lemmas clean_simps = normalize_clean_eq pass_simps clean_low

lemma normalize_pokemon_mark: "normalize [0x30DD, 0x30B1, 0x30E2, 0x30F3, 0x30FC] = [0x30DB, 0x30B1, 0x30E2, 0x30F3]"
  by (simp add: clean_simps)

lemma normalize_pokemon: "normalize [0x30DD, 0x30B1, 0x30E2, 0x30F3] = [0x30DB, 0x30B1, 0x30E2, 0x30F3]"
  by (simp add: clean_simps)

lemma normalize_roller: "normalize [0x30ED, 0x30FC, 0x30E9, 0x30FC] = [0x30ED, 0x30FC, 0x30E9]"
  by (simp add: clean_simps)

lemma normalize_roura: "normalize [0x30ED, 0x30A6, 0x30E9] = [0x30ED, 0x30A6, 0x30E9]"
  by (simp add: clean_simps)

lemma normalize_porygon2_ascii:
  "normalize [0x30DD, 0x30EA, 0x30B4, 0x30F3, 0x32] = [0x30DB, 0x30EA, 0x30B4, 0x30F3, 0x32]"
  by (simp add: clean_simps)

lemma normalize_porygon_tsu:
  "normalize [0x30DD, 0x30EA, 0x30B4, 0x30F3, 0x30C4, 0x30FC] = [0x30DB, 0x30EA, 0x30B4, 0x30F3, 0x30C4]"
  by (simp add: clean_simps)

lemma normalize_porygonZ_ascii:
  "normalize [0x30DD, 0x30EA, 0x30B4, 0x30F3, 0x5A] = [0x30DB, 0x30EA, 0x30B4, 0x30F3, 0x7A]"
  by (simp add: clean_simps)

lemma normalize_porygon_zetto:
  "normalize [0x30DD, 0x30EA, 0x30B4, 0x30F3, 0x30BC, 0x30C3, 0x30C8]
     = [0x30DB, 0x30EA, 0x30B4, 0x30F3, 0x30BC, 0x30C4, 0x30C8]"
  by (simp add: clean_simps)

lemma normalize_ga: "normalize [0x30AC] = [0x30AB]"
  by (simp add: clean_simps)

lemma normalize_ka: "normalize [0x30AB] = [0x30AB]"
  by (simp add: clean_simps)

lemma normalize_gado: "normalize [0x30AC, 0x30C9] = [0x30AB, 0x30C8]"
  by (simp add: clean_simps)

lemma normalize_gagaga: "normalize [0x30AC, 0x30AC, 0x30AC] = [0x30AB, 0x30AC, 0x30AB]"
  by (simp add: clean_simps)

lemma normalize_dragon: "normalize [0x30C9, 0x30E9, 0x30B4, 0x30F3] = [0x30C8, 0x30E9, 0x30B4, 0x30F3]"
  by (simp add: clean_simps)

lemma normalize_nyan: "normalize [0x306B, 0x3083, 0x3093] = [0x30CB, 0x30E4, 0x30F3]"
  by (simp add: clean_simps)

lemma normalize_raichu: "normalize [0x3089, 0x3044, 0x3061, 0x3085, 0x3046] = [0x30E9, 0x30A4, 0x30C1, 0x30E6, 0x30A6]"
  by (simp add: clean_simps)

lemma normalize_mark: "normalize [0x30FC] = []"
  by (simp add: clean_simps)

lemma normalize_a: "normalize [0x30A2] = [0x30A2]"
  by (simp add: clean_simps)

lemma normalize_ga_mark: "normalize [0x30AC, 0x3099] = [0x30AC]"
  by (simp add: normalize_eq normalizeEnding_eq pass_simps nfkc_simps)

subsection \<open>Units of a key\<close>

lemma normalize_settled: "u \<in> set (normalize s) \<Longrightarrow> settled u \<and> \<not> smallForm u"
proof -
  let ?n1 = "nfkc (normalizeEnding (normalizeSpecialCases s))"
  let ?d = "map (lowerUnit \<circ> shiftUnit) ?n1"
  let ?e = "normalizeDakuten ?d"
  have d: "\<forall>u\<in>set ?d. settled u"
    using nfkc_stable by (auto intro: shift_lower_settled)
  have e: "\<forall>u\<in>set ?e. settled u"
    using d by (rule normalizeDakuten_pred) (rule devoiceUnit_settled)
  then have "nfkc ?e = compose ?e"
    by (intro nfkc_stable_compose) (simp add: settled_def)
  moreover have "\<forall>u\<in>set (compose ?e). settled u"
    using e by (rule compose_pred [rotated]) (rule composePair_settled)
  ultimately have n2: "\<forall>u\<in>set (nfkc ?e). settled u" by simp
  assume "u \<in> set (normalize s)"
  then obtain v where v: "v \<in> set (nfkc ?e)" and u: "u = expandUnit v"
    by (auto simp: normalize_eq)
  from n2 v have sv: "settled v" by blast
  then have "\<not> isHiragana v" by (simp add: settled_def)
  then have "\<not> smallForm (expandUnit v)" by (rule expandUnit_not_small)
  with expandUnit_settled [OF sv] u show ?thesis by simp
qed

lemma hiragana_clean: "isHiragana u \<Longrightarrow> clean u"
  by (intro clean_low) (auto simp: isHiragana_def)

lemma hiragana_shifted:
  "isHiragana u \<Longrightarrow> clean (u + 0x60) \<and> u + 0x60 \<noteq> 0x30FC \<and> u \<noteq> 0x30FC \<and>
     lowerUnit (shiftUnit (u + 0x60)) = lowerUnit (shiftUnit u)"
  by (auto simp: isHiragana_def lowerUnit_def shiftUnit_def intro!: clean_low)

lemma stripMarks_none: "0x30FC \<notin> set t \<Longrightarrow> stripMarks t = t"
  by (rule stripMarks_id) (cases t rule: rev_cases, auto)

lemma normalizeEnding_roller: "normalizeEnding [0x30ED, 0x30FC, 0x30E9, 0x30FC, 0x30FC] = [0x30ED, 0x30FC, 0x30E9]"
  by (simp add: normalizeEnding_eq stripMarks_def nfkc_clean clean_low)

subsection \<open>Special cases and edges\<close>

lemma specialReading_twice: "concat (map specialReading (specialReading u)) = specialReading u"
  by (simp add: specialReading_def)

lemma normalizeSpecialCases_idem:
  "normalizeSpecialCases (normalizeSpecialCases s) = normalizeSpecialCases s"
  by (induction s) (simp_all add: normalizeSpecialCases_eq specialReading_twice)

lemma normalize_porygon2:
  "normalize [0x30DD, 0x30EA, 0x30B4, 0x30F3, 0xFF12] = [0x30DB, 0x30EA, 0x30B4, 0x30F3, 0x30C4]"
  by (simp add: clean_simps)

lemma normalize_porygonZ:
  "normalize [0x30DD, 0x30EA, 0x30B4, 0x30F3, 0xFF3A]
     = [0x30DB, 0x30EA, 0x30B4, 0x30F3, 0x30BC, 0x30C4, 0x30C8]"
  by (simp add: clean_simps)

lemma normalize_to: "normalize [0x30C8] = [0x30C8]"
  by (simp add: clean_simps)

lemma nfkc_dogagaa: "nfkc (normalizeSpecialCases [0x30C9, 0x30AC, 0x30D1]) = [0x30C9, 0x30AC, 0x30D1]"
  by (simp add: normalizeSpecialCases_eq specialReading_def nfkc_clean clean_low)

lemma normalize_dogapa: "normalize [0x30C9, 0x30AC, 0x30D1] = [0x30C8, 0x30AC, 0x30CF]"
  by (simp add: clean_simps)

subsection \<open>The string methods of the validator\<close>

lemma stripMarks_nth:
  assumes i: "i < length s" and u: "s ! i \<noteq> 0x30FC"
  shows "i < length (stripMarks s) \<and> stripMarks s ! i = s ! i"
proof -
  let ?n = "length (takeWhile (\<lambda>u. u = 0x30FC) (rev s))"
  have eq: "s = stripMarks s @ replicate ?n 0x30FC" by (rule stripMarks_replicate)
  then have len: "length s = length (stripMarks s) + ?n"
    by (metis length_append length_replicate)
  have nth: "s ! i = (stripMarks s @ replicate ?n 0x30FC) ! i"
    using eq by (rule arg_cong)
  have lt: "i < length (stripMarks s)"
  proof (rule ccontr)
    assume "\<not> i < length (stripMarks s)"
    with i len nth have "s ! i = 0x30FC" by (simp add: nth_append)
    with u show False by simp
  qed
  with nth show ?thesis by (simp add: nth_append)
qed

lemma trim_Nil_iff: "trim s = [] \<longleftrightarrow> (\<forall>u\<in>set s. isWhiteSpace u)"
proof
  assume "trim s = []"
  then have "dropWhile isWhiteSpace (rev (dropWhile isWhiteSpace s)) = []"
    by (simp add: trim_def)
  then have "\<forall>u\<in>set (dropWhile isWhiteSpace s). isWhiteSpace u"
    by (simp add: dropWhile_eq_Nil_conv)
  then have "dropWhile isWhiteSpace s = []"
    using hd_dropWhile [of isWhiteSpace s] hd_in_set [of "dropWhile isWhiteSpace s"] by blast
  then show "\<forall>u\<in>set s. isWhiteSpace u" by (simp add: dropWhile_eq_Nil_conv)
next
  assume "\<forall>u\<in>set s. isWhiteSpace u"
  then have "dropWhile isWhiteSpace s = []" by (simp add: dropWhile_eq_Nil_conv)
  then show "trim s = []" by (simp only: trim_def rev.simps dropWhile.simps)
qed

lemma startsWith_prefix: "startsWith s p \<longleftrightarrow> prefix p s"
  by (auto simp: startsWith_def prefix_def) (metis append_take_drop_id)

lemma endsWith_suffix: "endsWith s p \<longleftrightarrow> suffix p s"
proof
  assume "endsWith s p"
  then have "s = take (length s - length p) s @ p"
    by (metis append_take_drop_id endsWith_def)
  then show "suffix p s" by (metis suffixI)
next
  assume "suffix p s"
  then show "endsWith s p" by (auto simp: endsWith_def suffix_def)
qed

lemma slice1_last: "slice1 t (- 1) = (if t = [] then [] else [last t])"
proof (cases t rule: rev_cases)
  case Nil
  then show ?thesis by (simp add: slice1_def slice_def)
next
  case (snoc ys y)
  then show ?thesis by (simp add: slice1_def slice_def Let_def max_def nat_add_distrib)
qed

lemma index_0: "index t 0 = (if t = [] then None else Some [hd t])"
  by (cases t) (simp_all add: index_def)

lemma validityOn_eq:
  "getShiritoriValidityOn rt prev next c \<longleftrightarrow>
     trim c = [] \<or>
     ((\<forall>p. prev = Some p \<and> jpName p \<noteq> [] \<and> normalizeOn rt (jpName p) \<noteq> [] \<longrightarrow>
           prefix [last (normalizeOn rt (jpName p))] (normalizeOn rt c)) \<and>
      (\<forall>n. next = Some n \<and> jpName n \<noteq> [] \<longrightarrow>
           suffix (if normalizeOn rt (jpName n) = [] then undefinedText
                   else [hd (normalizeOn rt (jpName n))]) (normalizeOn rt c)))"
  by (cases prev; cases "next")
     (auto simp: getShiritoriValidityOn_def Let_def startsWith_prefix endsWith_suffix slice1_last
        index_0 toStringArg_def)

lemma validity_eq:
  "getShiritoriValidity prev next c \<longleftrightarrow>
     trim c = [] \<or>
     ((\<forall>p. prev = Some p \<and> jpName p \<noteq> [] \<and> normalize (jpName p) \<noteq> [] \<longrightarrow>
           prefix [last (normalize (jpName p))] (normalize c)) \<and>
      (\<forall>n. next = Some n \<and> jpName n \<noteq> [] \<longrightarrow>
           suffix (if normalize (jpName n) = [] then undefinedText
                   else [hd (normalize (jpName n))]) (normalize c)))"
  unfolding getShiritoriValidity_def normalize_def by (rule validityOn_eq)

lemma normalize_pikachu:
  "normalize [0x30D4, 0x30AB, 0x30C1, 0x30E5, 0x30A6] = [0x30D2, 0x30AB, 0x30C1, 0x30E6, 0x30A6]"
  by (simp add: clean_simps)

lemma normalize_windie:
  "normalize [0x30A6, 0x30A4, 0x30F3, 0x30C7, 0x30A3] = [0x30A6, 0x30A4, 0x30F3, 0x30C7, 0x30A4]"
  by (simp add: clean_simps)

lemma normalize_eevee:
  "normalize [0x30A4, 0x30FC, 0x30D6, 0x30A4] = [0x30A4, 0x30FC, 0x30D6, 0x30A4]"
  by (simp add: clean_simps)

subsection \<open>The passes over any runtime\<close>

lemma normalizeSpecialCases_Nil [simp]: "normalizeSpecialCases [] = []"
  by (simp add: normalizeSpecialCases_def)

lemma endingOn_Nil [simp]: "endingOn rt [] = []"
  by (simp add: endingOn_def normalizeEndingOn_eq)

lemma dakuOn_Nil [simp]: "dakuOn rt [] = []"
  by (simp add: dakuOn_def normalizeKanaOn_eq)

lemma normalizeOn_daku: "normalizeOn rt s = normalizeSmallKanaOn rt (dakuOn rt s)"
proof (cases "s = []")
  case True
  then show ?thesis by (simp add: normalizeOn_eq normalizeSmallKanaOn_eq)
next
  case False
  then show ?thesis by (simp add: normalizeOn_eq dakuOn_def endingOn_def)
qed

lemma normalizeOn_kana: "normalizeOn kanaRuntime = normalize"
  by (simp add: normalize_def)

lemma endingOn_kana: "endingOn kanaRuntime s = normalizeEnding (normalizeSpecialCases s)"
  by (simp add: endingOn_def normalizeEnding_def)

lemma dakuOn_kana:
  "dakuOn kanaRuntime s = normalizeDakuten (normalizeKana (normalizeEnding (normalizeSpecialCases s)))"
  by (simp add: dakuOn_def endingOn_kana normalizeKana_def)

lemma endingOn_last: "endingOn rt s \<noteq> [] \<Longrightarrow> last (endingOn rt s) \<noteq> 0x30FC"
  using stripMarks_last [of "nfkcOf rt (normalizeSpecialCases s)"]
  by (auto simp: endingOn_def normalizeEndingOn_eq split: if_splits)

lemma shiftUnit_facts:
  "\<not> isHiragana (shiftUnit u) \<and> (shiftUnit u = 0x30FC \<longrightarrow> u = 0x30FC) \<and>
   (shiftUnit u = 0x309F \<longrightarrow> u = 0x309F) \<and> (shiftUnit u = 0xD83C \<longrightarrow> u = 0xD83C) \<and>
   (shiftUnit u = 0xDE00 \<longrightarrow> u = 0xDE00) \<and> (\<not> isHiragana u \<longrightarrow> shiftUnit u = u)"
  by (auto simp: shiftUnit_def isHiragana_def)

lemma devoiceUnit_hiragana: "isHiragana (devoiceUnit u) \<Longrightarrow> isHiragana u"
  using devoiceUnit_cases [of u] by (auto simp: isHiragana_def)

lemma devoiceUnit_other:
  "(devoiceUnit u = 0x309F \<longrightarrow> u = 0x309F) \<and> (devoiceUnit u = 0xD83C \<longrightarrow> u = 0xD83C) \<and>
   (devoiceUnit u = 0xDE00 \<longrightarrow> u = 0xDE00)"
  using devoiceUnit_cases [of u] by auto

lemma expandUnit_hiragana: "isHiragana (expandUnit u) \<Longrightarrow> isHiragana u"
  using expandUnit_cases [of u] by (auto simp: isHiragana_def)

lemma dakuOn_edges:
  assumes "dakuOn rt s \<noteq> []"
  shows "dakutenMap (hd (dakuOn rt s)) = None \<and> dakutenMap (last (dakuOn rt s)) = None"
proof -
  let ?d = "normalizeKanaOn rt (endingOn rt s)"
  from assms have d: "?d \<noteq> []" by (simp add: dakuOn_def)
  then have "devoiceUnit (hd (dakuOn rt s)) = hd (dakuOn rt s)"
    and "devoiceUnit (last (dakuOn rt s)) = last (dakuOn rt s)"
    by (simp_all add: dakuOn_def hd_normalizeDakuten last_normalizeDakuten devoiceUnit_idem)
  then show ?thesis by (simp add: devoiceUnit_fixed)
qed

lemma key_edges:
  assumes g: "nfkcOf rt (dakuOn rt s) = dakuOn rt s" and ne: "normalizeOn rt s \<noteq> []"
  shows "dakutenMap (hd (normalizeOn rt s)) = None \<and> dakutenMap (last (normalizeOn rt s)) = None"
proof -
  let ?e = "dakuOn rt s"
  from ne have e: "?e \<noteq> []"
    by (auto simp: normalizeOn_daku normalizeSmallKanaOn_eq split: if_splits)
  then have k: "normalizeOn rt s = map expandUnit ?e"
    by (simp add: normalizeOn_daku normalizeSmallKanaOn_eq g)
  from dakuOn_edges [OF e] have "devoiceUnit (hd ?e) = hd ?e" "devoiceUnit (last ?e) = last ?e"
    by (simp_all add: devoiceUnit_fixed)
  then have "devoiceUnit (expandUnit (hd ?e)) = expandUnit (hd ?e)"
    and "devoiceUnit (expandUnit (last ?e)) = expandUnit (last ?e)"
    by (simp_all add: expandUnit_devoiced)
  with e show ?thesis by (simp add: k hd_map last_map devoiceUnit_fixed)
qed

lemma normalizeSpecialCases_id:
  "0xFF12 \<notin> set k \<Longrightarrow> 0xFF3A \<notin> set k \<Longrightarrow> normalizeSpecialCases k = k"
  by (induction k) (auto simp: normalizeSpecialCases_eq specialReading_def)

lemma passes_fixed:
  assumes sp: "0xFF12 \<notin> set k" "0xFF3A \<notin> set k"
    and n: "nfkcOf rt k = k" and l: "lowerOf rt k = k"
    and u: "\<forall>u\<in>set k. \<not> isHiragana u \<and> expandUnit u = u"
    and e: "k \<noteq> [] \<longrightarrow> last k \<noteq> 0x30FC \<and> devoiceUnit (hd k) = hd k \<and> devoiceUnit (last k) = last k"
  shows "normalizeSpecialCases k = k \<and> normalizeEndingOn rt k = k \<and> normalizeKanaOn rt k = k \<and>
         normalizeDakuten k = k \<and> normalizeSmallKanaOn rt k = k \<and> normalizeOn rt k = k"
proof -
  have 1: "normalizeSpecialCases k = k" using sp by (rule normalizeSpecialCases_id)
  have "stripMarks k = k" using e by (intro stripMarks_id) auto
  then have 2: "normalizeEndingOn rt k = k" by (simp add: normalizeEndingOn_eq n)
  have "map shiftUnit k = k" using u by (intro map_idI) (simp add: shiftUnit_facts)
  then have 3: "normalizeKanaOn rt k = k" by (simp add: normalizeKanaOn_eq n l)
  have 4: "normalizeDakuten k = k" using e by (intro normalizeDakuten_id) simp
  have "map expandUnit k = k" using u by (intro map_idI) simp
  then have 5: "normalizeSmallKanaOn rt k = k" by (simp add: normalizeSmallKanaOn_eq n)
  have 6: "normalizeOn rt k = k" by (simp add: normalizeOn_eq 1 2 3 4 5)
  from 1 2 3 4 5 6 show ?thesis by simp
qed

subsection \<open>Hiragana\<close>

lemma adjacent_Cons: "x \<noteq> a \<Longrightarrow> adjacent a b (x # r) = adjacent a b r"
  by (cases r) auto

lemma adjacent_ConsI: "adjacent a b r \<Longrightarrow> adjacent a b (x # r)"
  by (cases r) auto

lemma adjacent_Cons_iff:
  "adjacent a b (x # r) \<longleftrightarrow> (x = a \<and> r \<noteq> [] \<and> hd r = b) \<or> adjacent a b r"
  by (cases r) auto

lemma adjacent_iff:
  "adjacent a b x \<longleftrightarrow> (\<exists>i. Suc i < length x \<and> x ! i = a \<and> x ! Suc i = b)"
proof (induction a b x rule: adjacent.induct)
  case (3 a b x y r)
  show ?case
  proof
    assume "adjacent a b (x # y # r)"
    then consider "x = a \<and> y = b" | "adjacent a b (y # r)" by auto
    then show "\<exists>i. Suc i < length (x # y # r) \<and> (x # y # r) ! i = a \<and> (x # y # r) ! Suc i = b"
    proof cases
      case 1
      then show ?thesis by (intro exI [of _ 0]) simp
    next
      case 2
      with 3 obtain i where "Suc i < length (y # r) \<and> (y # r) ! i = a \<and> (y # r) ! Suc i = b"
        by blast
      then show ?thesis by (intro exI [of _ "Suc i"]) simp
    qed
  next
    assume "\<exists>i. Suc i < length (x # y # r) \<and> (x # y # r) ! i = a \<and> (x # y # r) ! Suc i = b"
    then obtain i where i: "Suc i < length (x # y # r)" "(x # y # r) ! i = a" "(x # y # r) ! Suc i = b"
      by blast
    show "adjacent a b (x # y # r)"
    proof (cases i)
      case 0
      with i show ?thesis by simp
    next
      case (Suc j)
      with i have "Suc j < length (y # r) \<and> (y # r) ! j = a \<and> (y # r) ! Suc j = b" by simp
      with 3 have "adjacent a b (y # r)" by blast
      then show ?thesis by simp
    qed
  qed
qed simp_all

lemma adjacent_map:
  assumes "\<And>u. f u = a \<Longrightarrow> u = a" and "\<And>u. f u = b \<Longrightarrow> u = b"
  shows "adjacent a b (map f x) \<Longrightarrow> adjacent a b x"
  using assms by (auto simp: adjacent_iff)

lemma adjacent_normalizeDakuten:
  assumes "adjacent 0xD83C 0xDE00 (normalizeDakuten d)"
  shows "adjacent 0xD83C 0xDE00 d"
proof -
  from assms obtain i where i: "Suc i < length d" "normalizeDakuten d ! i = 0xD83C"
      "normalizeDakuten d ! Suc i = 0xDE00"
    by (auto simp: adjacent_iff)
  then have "d ! i = 0xD83C" "d ! Suc i = 0xDE00"
    using devoiceUnit_other [of "d ! i"] devoiceUnit_other [of "d ! Suc i"]
    by (auto simp: nth_normalizeDakuten split: if_splits)
  with i show ?thesis by (auto simp: adjacent_iff)
qed

lemma yieldsHiragana_Nil [simp]: "\<not> yieldsHiragana []"
  by (simp add: yieldsHiragana_def)

lemma shift_yields:
  assumes "0x309F \<notin> set x" and "\<not> adjacent 0xD83C 0xDE00 x"
  shows "\<not> yieldsHiragana (map shiftUnit x)"
proof -
  have "adjacent 0xD83C 0xDE00 (map shiftUnit x) \<Longrightarrow> adjacent 0xD83C 0xDE00 x"
    by (rule adjacent_map) (simp_all add: shiftUnit_facts)
  with assms(2) have 1: "\<not> adjacent 0xD83C 0xDE00 (map shiftUnit x)" by auto
  have 2: "\<And>u. u \<in> set x \<Longrightarrow> \<not> isHiragana (shiftUnit u) \<and> shiftUnit u \<noteq> 0x309F"
  proof -
    fix u assume "u \<in> set x"
    with assms(1) have "u \<noteq> 0x309F" by auto
    with shiftUnit_facts [of u] show "\<not> isHiragana (shiftUnit u) \<and> shiftUnit u \<noteq> 0x309F"
      by simp
  qed
  from 1 2 show ?thesis by (auto simp: yieldsHiragana_def)
qed

lemma daku_yields:
  assumes "\<not> yieldsHiragana d"
  shows "\<not> yieldsHiragana (normalizeDakuten d)"
proof -
  from assms have "\<forall>u\<in>set d. \<not> isHiragana u \<and> u \<noteq> 0x309F"
    by (auto simp: yieldsHiragana_def)
  then have 1: "\<forall>u\<in>set (normalizeDakuten d). \<not> isHiragana u \<and> u \<noteq> 0x309F"
  proof (rule normalizeDakuten_pred)
    fix u assume "\<not> isHiragana u \<and> u \<noteq> 0x309F"
    with devoiceUnit_other [of u] devoiceUnit_hiragana [of u]
    show "\<not> isHiragana (devoiceUnit u) \<and> devoiceUnit u \<noteq> 0x309F" by auto
  qed
  from assms have "\<not> adjacent 0xD83C 0xDE00 d" by (simp add: yieldsHiragana_def)
  with adjacent_normalizeDakuten [of d] have 2: "\<not> adjacent 0xD83C 0xDE00 (normalizeDakuten d)"
    by auto
  from 1 2 show ?thesis by (auto simp: yieldsHiragana_def)
qed

subsection \<open>Units that no rule matches\<close>

lemma unmatched_unit:
  "unmatched u \<Longrightarrow>
     u \<noteq> 0xFF12 \<and> u \<noteq> 0xFF3A \<and> u \<noteq> 0x30FC \<and> \<not> isHiragana u \<and> shiftUnit u = u \<and>
     devoiceUnit u = u \<and> expandUnit u = u"
  by (auto simp: unmatched_def specialCases_def isHiragana_def shiftUnit_def expandUnit_def
      isSmallKana_single devoiceUnit_def)

lemma unmatched_fixed:
  assumes um: "\<forall>u\<in>set s. unmatched u" and n: "nfkcOf rt s = s" and l: "lowerOf rt s = s"
  shows "normalizeSpecialCases s = s \<and> normalizeEndingOn rt s = s \<and> normalizeKanaOn rt s = s \<and>
         normalizeDakuten s = s \<and> normalizeSmallKanaOn rt s = s \<and> normalizeOn rt s = s"
proof (rule passes_fixed [OF _ _ n l])
  show "0xFF12 \<notin> set s" "0xFF3A \<notin> set s" using um unmatched_unit by blast+
  show "\<forall>u\<in>set s. \<not> isHiragana u \<and> expandUnit u = u" using um unmatched_unit by blast
  have "s \<noteq> [] \<Longrightarrow> unmatched (hd s) \<and> unmatched (last s)" using um by simp
  then show "s \<noteq> [] \<longrightarrow> last s \<noteq> 0x30FC \<and> devoiceUnit (hd s) = hd s \<and> devoiceUnit (last s) = last s"
    using unmatched_unit by blast
qed

lemma unmatched_position:
  assumes i: "i < length t" and um: "unmatched (t ! i)"
  shows "normalizeSpecialCases t
           = normalizeSpecialCases (take i t) @ t ! i # normalizeSpecialCases (drop (Suc i) t)"
    and "normalizeDakuten t ! i = t ! i"
    and "nfkcOf rt t = t \<Longrightarrow>
           i < length (normalizeEndingOn rt t) \<and> normalizeEndingOn rt t ! i = t ! i"
    and "nfkcOf rt t = t \<Longrightarrow> lowerOf rt (map shiftUnit t) = map shiftUnit t \<Longrightarrow>
           normalizeKanaOn rt t ! i = t ! i"
    and "nfkcOf rt t = t \<Longrightarrow> normalizeSmallKanaOn rt t ! i = t ! i"
proof -
  note u = unmatched_unit [OF um]
  from i have ne: "t \<noteq> []" by auto
  have "t = take i t @ t ! i # drop (Suc i) t" using i by (rule id_take_nth_drop)
  then have "concat (map specialReading t)
      = concat (map specialReading (take i t)) @ specialReading (t ! i)
        @ concat (map specialReading (drop (Suc i) t))"
    by (metis concat.simps(2) concat_append list.simps(9) map_append)
  with u show "normalizeSpecialCases t
           = normalizeSpecialCases (take i t) @ t ! i # normalizeSpecialCases (drop (Suc i) t)"
    by (simp add: normalizeSpecialCases_eq specialReading_def)
  show "normalizeDakuten t ! i = t ! i" using i u by (simp add: nth_normalizeDakuten)
  show "i < length (normalizeEndingOn rt t) \<and> normalizeEndingOn rt t ! i = t ! i"
    if "nfkcOf rt t = t"
    using that ne i u stripMarks_nth [of i t] by (simp add: normalizeEndingOn_eq)
  show "normalizeKanaOn rt t ! i = t ! i"
    if "nfkcOf rt t = t" "lowerOf rt (map shiftUnit t) = map shiftUnit t"
    using that ne i u by (simp add: normalizeKanaOn_eq)
  show "normalizeSmallKanaOn rt t ! i = t ! i" if "nfkcOf rt t = t"
    using that ne i u by (simp add: normalizeSmallKanaOn_eq)
qed

lemma loop_bounds:
  "- 1 \<le> normalizeEnding_loop nk (int (length nk) - 1) \<and>
   normalizeEnding_loop nk (int (length nk) - 1) < int (length nk)"
  using loop_take [of "int (length nk) - 1" nk] by simp

subsection \<open>The runtime on kana names and the facts of Unicode\<close>

lemma lowerUnit_facts:
  "(isHiragana (lowerUnit u) \<longrightarrow> isHiragana u) \<and> (lowerUnit u = 0x30FC \<longrightarrow> u = 0x30FC) \<and>
   (lowerUnit u = 0x309F \<longrightarrow> u = 0x309F) \<and> (lowerUnit u = 0xD83C \<longrightarrow> u = 0xD83C) \<and>
   (lowerUnit u = 0xDE00 \<longrightarrow> u = 0xDE00)"
  by (auto simp: lowerUnit_def isHiragana_def)

lemma kana_nfkc_special: "0xFF12 \<notin> set (nfkc x) \<and> 0xFF3A \<notin> set (nfkc x)"
  using nfkc_stable [of "0xFF12" x] nfkc_stable [of "0xFF3A" x]
    stable_fullwidth [of "0xFF12"] stable_fullwidth [of "0xFF3A"]
  by auto

lemma kana_lower_hiragana:
  "(\<exists>u\<in>set (toLowerCase x). isHiragana u) \<longrightarrow> (\<exists>u\<in>set x. isHiragana u)"
  using lowerUnit_facts by (auto simp: toLowerCase_def)

lemma kana_lower_last:
  "x \<noteq> [] \<and> toLowerCase x \<noteq> [] \<and> last (toLowerCase x) = 0x30FC \<longrightarrow> last x = 0x30FC"
  using lowerUnit_facts [of "last x"] by (auto simp: toLowerCase_def last_map)

lemma kana_lower_yields: "yieldsHiragana (toLowerCase x) \<longrightarrow> yieldsHiragana x"
proof
  assume y: "yieldsHiragana (toLowerCase x)"
  have a: "adjacent 0xD83C 0xDE00 (map lowerUnit x) \<Longrightarrow> adjacent 0xD83C 0xDE00 x"
    by (rule adjacent_map) (simp_all add: lowerUnit_facts)
  have b: "\<And>u. isHiragana (lowerUnit u) \<or> lowerUnit u = 0x309F \<Longrightarrow> isHiragana u \<or> u = 0x309F"
    using lowerUnit_facts by blast
  from y a b show "yieldsHiragana x"
    by (auto simp: yieldsHiragana_def toLowerCase_def)
qed

subsection \<open>The code point U+1F200\<close>

lemma squareHoka_units:
  "u \<in> set (squareHoka x) \<Longrightarrow>
     u \<in> set x \<or> adjacent 0xD83C 0xDE00 x \<and> (u = 0x307B \<or> u = 0x304B)"
proof (induction x rule: squareHoka.induct)
  case (3 x y r)
  show ?case
  proof (cases "x = 0xD83C \<and> y = 0xDE00")
    case True
    with 3 show ?thesis by auto
  next
    case False
    with "3.prems" have "u = x \<or> u \<in> set (squareHoka (y # r))" by auto
    then show ?thesis
    proof
      assume "u = x"
      then show ?thesis by simp
    next
      assume "u \<in> set (squareHoka (y # r))"
      with "3.IH"(2) False
      have "u \<in> set (y # r) \<or> adjacent 0xD83C 0xDE00 (y # r) \<and> (u = 0x307B \<or> u = 0x304B)"
        by blast
      then show ?thesis by auto
    qed
  qed
qed simp_all

lemma squareHoka_Nil_iff [simp]: "squareHoka x = [] \<longleftrightarrow> x = []"
  by (induction x rule: squareHoka.induct) simp_all

lemma hd_squareHoka: "hd (squareHoka (y # r)) = 0xDE00 \<Longrightarrow> y = 0xDE00"
  by (cases r) (auto split: if_splits)

lemma squareHoka_adjacent: "\<not> adjacent 0xD83C 0xDE00 (squareHoka x)"
proof (induction x rule: squareHoka.induct)
  case (3 x y r)
  show ?case
  proof (cases "x = 0xD83C \<and> y = 0xDE00")
    case True
    with 3 show ?thesis by (simp add: adjacent_Cons)
  next
    case False
    with 3 have ih: "\<not> adjacent 0xD83C 0xDE00 (squareHoka (y # r))" by simp
    have *: "\<not> (x = 0xD83C \<and> hd (squareHoka (y # r)) = 0xDE00)"
      using False hd_squareHoka [of y r] by blast
    from False have eq: "squareHoka (x # y # r) = x # squareHoka (y # r)" by auto
    show ?thesis unfolding eq using ih * by (simp add: adjacent_Cons_iff)
  qed
qed simp_all

lemma compatTable_bound:
  assumes "map_of compatTable u = Some w" and "v \<in> set w"
  shows "v \<le> 0x30FF \<and> w \<noteq> [] \<and> (isHiragana v \<longrightarrow> u = 0x309F)"
proof -
  from assms(1) have "(u, w) \<in> set compatTable" by (rule map_of_SomeD)
  with assms(2) show ?thesis by (auto simp: compatTable_def isHiragana_def)
qed

lemma compat_units:
  assumes "v \<in> set (compat u)"
  shows "(v = u \<or> v \<le> 0x30FF) \<and> (isHiragana v \<longrightarrow> isHiragana u \<or> u = 0x309F)"
proof (cases "0xFF01 \<le> u \<and> u \<le> 0xFF5E")
  case True
  with assms have "v = u - 0xFEE0" by (simp add: compat_def)
  with True show ?thesis by (auto simp: isHiragana_def)
next
  case False
  show ?thesis
  proof (cases "map_of compatTable u")
    case None
    with False assms have "v = u" by (auto simp: compat_def)
    then show ?thesis by simp
  next
    case (Some w)
    with False assms have "v \<in> set w" by (auto simp: compat_def)
    from compatTable_bound [OF Some this] show ?thesis by simp
  qed
qed

lemma compat_not_Nil: "compat u \<noteq> []"
proof (cases "map_of compatTable u")
  case None
  then show ?thesis by (simp add: compat_def)
next
  case (Some w)
  have "w \<noteq> []"
  proof
    assume "w = []"
    with Some have "(u, []) \<in> set compatTable" by (simp add: map_of_SomeD)
    then show False by (auto simp: compatTable_def)
  qed
  with Some show ?thesis by (simp add: compat_def)
qed

lemma adjacent_append:
  "a \<notin> set w \<Longrightarrow> adjacent a b (w @ z) = adjacent a b z"
  by (induction w) (simp_all add: adjacent_Cons)

lemma hd_concat_compat:
  assumes "r \<noteq> []" and "hd (concat (map compat r)) = 0xDE00"
  shows "hd r = 0xDE00"
proof -
  from assms(1) obtain u r' where r: "r = u # r'" by (cases r) auto
  with compat_not_Nil [of u] assms(2) have "hd (compat u) = 0xDE00" by simp
  moreover have "hd (compat u) \<in> set (compat u)" using compat_not_Nil [of u] by simp
  ultimately have "0xDE00 \<in> set (compat u)" by simp
  from compat_units [OF this] have "u = 0xDE00" by auto
  with r show ?thesis by simp
qed

lemma concat_compat_adjacent:
  "adjacent 0xD83C 0xDE00 (concat (map compat y)) \<Longrightarrow> adjacent 0xD83C 0xDE00 y"
proof (induction y)
  case Nil
  then show ?case by simp
next
  case (Cons u r)
  show ?case
  proof (cases "0xD83C \<in> set (compat u)")
    case False
    with Cons show ?thesis by (simp add: adjacent_append adjacent_ConsI)
  next
    case True
    from compat_units [OF this] have u: "u = 0xD83C" by auto
    then have c: "compat u = [u]" by (simp add: compat_def compatTable_def)
    with Cons.prems have "adjacent 0xD83C 0xDE00 (u # concat (map compat r))" by simp
    then have "(r \<noteq> [] \<and> hd (concat (map compat r)) = 0xDE00) \<or>
        adjacent 0xD83C 0xDE00 (concat (map compat r))"
      by (auto simp: adjacent_Cons_iff)
    then show ?thesis
    proof
      assume "r \<noteq> [] \<and> hd (concat (map compat r)) = 0xDE00"
      with hd_concat_compat [of r] have "r \<noteq> [] \<and> hd r = 0xDE00" by simp
      with u show ?thesis by (simp add: adjacent_Cons_iff)
    next
      assume "adjacent 0xD83C 0xDE00 (concat (map compat r))"
      with Cons.IH show ?thesis by (simp add: adjacent_ConsI)
    qed
  qed
qed

lemma hd_compose:
  "xs \<noteq> [] \<Longrightarrow> hd (compose xs) = hd xs \<or> hd (compose xs) \<le> 0x30FE"
proof (induction xs rule: compose.induct)
  case (3 x m r)
  show ?case
  proof (cases "composePair x m")
    case None
    then show ?thesis by simp
  next
    case (Some z)
    with "3.IH"(2) have "hd (compose (z # r)) = z \<or> hd (compose (z # r)) \<le> 0x30FE" by simp
    with composePair_values [OF Some] Some show ?thesis by auto
  qed
qed simp_all

lemma compose_not_Nil: "xs \<noteq> [] \<Longrightarrow> compose xs \<noteq> []"
proof (induction xs rule: compose.induct)
  case (3 x m r)
  then show ?case by (cases "composePair x m") simp_all
qed simp_all

lemma compose_adjacent:
  "adjacent 0xD83C 0xDE00 (compose y) \<Longrightarrow> adjacent 0xD83C 0xDE00 y"
proof (induction y rule: compose.induct)
  case (3 x m r)
  show ?case
  proof (cases "composePair x m")
    case (Some z)
    with "3.prems" have "adjacent 0xD83C 0xDE00 (compose (z # r))" by simp
    with "3.IH"(2) Some have "adjacent 0xD83C 0xDE00 (z # r)" by simp
    moreover from composePair_values [OF Some] have "z \<noteq> 0xD83C" by auto
    ultimately have "adjacent 0xD83C 0xDE00 r" by (simp add: adjacent_Cons)
    then show ?thesis by (simp add: adjacent_ConsI)
  next
    case None
    with "3.prems" have "adjacent 0xD83C 0xDE00 (x # compose (m # r))" by simp
    then have "(x = 0xD83C \<and> hd (compose (m # r)) = 0xDE00) \<or>
        adjacent 0xD83C 0xDE00 (compose (m # r))"
      by (auto simp: adjacent_Cons_iff)
    then show ?thesis
    proof
      assume h: "x = 0xD83C \<and> hd (compose (m # r)) = 0xDE00"
      with hd_compose [of "m # r"] have "m = 0xDE00" by auto
      with h show ?thesis by simp
    next
      assume "adjacent 0xD83C 0xDE00 (compose (m # r))"
      with "3.IH"(1) None have "adjacent 0xD83C 0xDE00 (m # r)" by simp
      then show ?thesis by simp
    qed
  qed
qed simp_all

lemma nfkc_adjacent: "adjacent 0xD83C 0xDE00 (nfkc y) \<Longrightarrow> adjacent 0xD83C 0xDE00 y"
proof -
  assume "adjacent 0xD83C 0xDE00 (nfkc y)"
  then have "adjacent 0xD83C 0xDE00 (concat (map compat y))"
    unfolding nfkc_def by (rule compose_adjacent)
  then show "adjacent 0xD83C 0xDE00 y" by (rule concat_compat_adjacent)
qed

lemma nfkc_hiragana:
  assumes "\<exists>u\<in>set (nfkc y). isHiragana u"
  shows "\<exists>u\<in>set y. isHiragana u \<or> u = 0x309F"
proof (rule ccontr)
  assume no: "\<not> (\<exists>u\<in>set y. isHiragana u \<or> u = 0x309F)"
  have "\<forall>v\<in>set (concat (map compat y)). \<not> isHiragana v"
  proof
    fix v assume "v \<in> set (concat (map compat y))"
    then obtain u where u: "u \<in> set y" "v \<in> set (compat u)" by auto
    from compat_units [OF u(2)] u(1) no show "\<not> isHiragana v" by blast
  qed
  then have "\<forall>v\<in>set (compose (concat (map compat y))). \<not> isHiragana v"
  proof (rule compose_pred [rotated])
    fix x m z assume "composePair x m = Some z" and "\<not> isHiragana x"
    with composePair_values [of x m z] show "\<not> isHiragana z" by simp
  qed
  with assms show False by (simp add: nfkc_def)
qed

lemma hoka_nfkc_hiragana:
  "(\<exists>u\<in>set (nfkcHoka x). isHiragana u) \<longrightarrow> yieldsHiragana x"
proof
  assume "\<exists>u\<in>set (nfkcHoka x). isHiragana u"
  then have "\<exists>u\<in>set (squareHoka x). isHiragana u \<or> u = 0x309F"
    unfolding nfkcHoka_def by (rule nfkc_hiragana)
  then obtain u where u: "u \<in> set (squareHoka x)" "isHiragana u \<or> u = 0x309F" by blast
  from squareHoka_units [OF u(1)] u(2) show "yieldsHiragana x"
    by (auto simp: yieldsHiragana_def)
qed

lemma hoka_nfkc_sources:
  "0x309F \<notin> set (nfkcHoka x) \<and> \<not> adjacent 0xD83C 0xDE00 (nfkcHoka x)"
proof
  have "\<not> stable 0x309F" by (simp add: stable_def compat_def compatTable_def)
  then show "0x309F \<notin> set (nfkcHoka x)"
    using nfkc_stable [of "0x309F" "squareHoka x"] by (auto simp: nfkcHoka_def)
  show "\<not> adjacent 0xD83C 0xDE00 (nfkcHoka x)"
    using nfkc_adjacent [of "squareHoka x"] squareHoka_adjacent [of x]
    by (auto simp: nfkcHoka_def)
qed

lemma hokaRuntime_simps [simp]: "nfkcOf hokaRuntime = nfkcHoka" "lowerOf hokaRuntime = toLowerCase"
  by (simp_all add: hokaRuntime_def)


lemma normalizeOn_hoka: "normalizeOn hokaRuntime [0xD83C, 0xDE00, 0x3089] = [0x30DB, 0x30AB, 0x30E9]"
  by (simp add: normalizeOn_eq normalizeEndingOn_eq normalizeKanaOn_eq normalizeSmallKanaOn_eq
      nfkcHoka_def nfkc_clean clean_low toLowerCase_def pass_simps)

subsection \<open>Strings for the claims\<close>

lemma kana_conditions:
  assumes nm: "\<forall>u\<in>set (nfkc (normalizeSpecialCases s)). \<not> isMark u"
  shows "nfkc (endingOn kanaRuntime s) = endingOn kanaRuntime s \<and>
         nfkc (dakuOn kanaRuntime s) = dakuOn kanaRuntime s \<and>
         nfkc (normalize s) = normalize s \<and> toLowerCase (normalize s) = normalize s"
proof -
  let ?b = "nfkc (normalizeSpecialCases s)"
  let ?c = "normalizeEnding (normalizeSpecialCases s)"
  let ?e = "normalizeDakuten (normalizeKana ?c)"
  have b: "\<forall>u\<in>set ?b. clean u"
    using nm nfkc_stable by (auto simp: clean_def)
  have "set ?c \<subseteq> set ?b"
    using set_stripMarks [of ?b] by (auto simp: normalizeEnding_eq)
  with b have c: "\<forall>u\<in>set ?c. clean u" by auto
  then have nc: "nfkc ?c = ?c" by (rule nfkc_clean)
  have "\<forall>u\<in>set (normalizeKana ?c). folded u"
    using c by (auto simp: normalizeKana_eq nc intro: shift_lower_folded)
  then have "\<forall>u\<in>set ?e. folded u"
    by (rule normalizeDakuten_pred) (rule devoiceUnit_folded)
  then have ne: "nfkc ?e = ?e" by (intro nfkc_clean) (auto intro: folded_clean)
  from normalize_canonical [OF nm] have k: "\<forall>u\<in>set (normalize s). folded u"
    by (simp add: canonical_def)
  then have nk: "nfkc (normalize s) = normalize s"
    by (intro nfkc_clean) (auto intro: folded_clean)
  have lk: "toLowerCase (normalize s) = normalize s"
    unfolding toLowerCase_def using k by (intro map_idI) (simp add: folded_def)
  from nc ne nk lk show ?thesis by (simp add: endingOn_kana dakuOn_kana)
qed

lemma unmatched_examples:
  "unmatched 0x6F22 \<and> unmatched 0x20 \<and> unmatched 0x61 \<and> unmatched 0x30A2 \<and>
   unmatched 0x30AB \<and> unmatched 0x3099"
  by (simp add: unmatched_def specialCases_def dakutenMap_def dakutenTable_def isSmallKana_single
      smallHira_def smallKata_def)

lemma dakutenMap_dom:
  "dakutenMap v \<noteq> None \<longleftrightarrow>
     v \<in> {0x30AC, 0x30AE, 0x30B0, 0x30B2, 0x30B4, 0x30B6, 0x30B8, 0x30BA, 0x30BC, 0x30BE,
          0x30C0, 0x30C2, 0x30C5, 0x30C7, 0x30C9, 0x30D0, 0x30D3, 0x30D6, 0x30D9, 0x30DC,
          0x30D1, 0x30D4, 0x30D7, 0x30DA, 0x30DD}"
proof -
  have "dakutenMap v \<noteq> None \<longleftrightarrow> v \<in> fst ` set dakutenTable"
    unfolding dakutenMap_def by (simp add: map_of_eq_None_iff)
  then show ?thesis by (simp add: dakutenTable_def)
qed

lemma normalize_vu: "normalize [0x30F4] = [0x30F4]"
  by (simp add: clean_simps)

lemma normalizeEnding_ka_mark: "normalizeEnding [0x30AB, 0x3099] = [0x30AC]"
  by (simp add: normalizeEnding_eq stripMarks_def nfkc_simps)

lemma mixed_fixed:
  "nfkc [0x6F22, 0x20, 0x61, 0x30A2] = [0x6F22, 0x20, 0x61, 0x30A2] \<and>
   toLowerCase [0x6F22, 0x20, 0x61, 0x30A2] = [0x6F22, 0x20, 0x61, 0x30A2] \<and>
   nfkc [0x30AC, 0x6F22, 0x3041, 0x61, 0x30C9] = [0x30AC, 0x6F22, 0x3041, 0x61, 0x30C9] \<and>
   toLowerCase (map shiftUnit [0x30AC, 0x6F22, 0x3041, 0x61, 0x30C9])
     = map shiftUnit [0x30AC, 0x6F22, 0x3041, 0x61, 0x30C9]"
  by (simp add: nfkc_clean clean_low toLowerCase_def lowerUnit_def shiftUnit_def)

section \<open>The claims\<close>

subsection \<open>C1: idempotence\<close>

text \<open>
  C1 (amended). \<open>normalize(normalize(s)) = normalize(s)\<close> for every string \<open>s\<close> in whose
  run the runtime has nothing left to do once the second pass has normalised the width:
  \<open>normalize('NFKC')\<close> leaves unchanged the result of the second pass, the result of the
  fourth pass and the key, and \<open>toLowerCase\<close> leaves the key unchanged. The key of such a
  string is a fixed point of the five passes composed. This holds over every runtime whose
  width normalisation never returns the full-width digit two, U+FF12, or the full-width
  capital Z, U+FF3A, and whose lower-casing puts neither a hiragana nor a long-vowel mark
  at the end where the string had none; the normalisation form KC and the lower-casing of
  Unicode are such.
\<close>

theorem normalize_idempotent:
  assumes FN: "\<forall>x. 0xFF12 \<notin> set (nfkcOf rt x) \<and> 0xFF3A \<notin> set (nfkcOf rt x)"
    and FL1: "\<forall>x. (\<exists>u\<in>set (lowerOf rt x). isHiragana u) \<longrightarrow> (\<exists>u\<in>set x. isHiragana u)"
    and FL2: "\<forall>x. x \<noteq> [] \<and> lowerOf rt x \<noteq> [] \<and> last (lowerOf rt x) = 0x30FC \<longrightarrow> last x = 0x30FC"
    and a: "nfkcOf rt (endingOn rt s) = endingOn rt s"
    and g: "nfkcOf rt (dakuOn rt s) = dakuOn rt s"
    and dl: "nfkcOf rt (normalizeOn rt s) = normalizeOn rt s"
    and ep: "lowerOf rt (normalizeOn rt s) = normalizeOn rt s"
  shows "normalizeOn rt (normalizeOn rt s) = normalizeOn rt s"
proof (cases "normalizeOn rt s = []")
  case True
  then show ?thesis by (simp add: normalizeOn_eq)
next
  case False
  let ?c = "endingOn rt s"
  let ?x = "map shiftUnit ?c"
  let ?d = "normalizeKanaOn rt ?c"
  let ?e = "dakuOn rt s"
  let ?k = "normalizeOn rt s"
  from False have e: "?e \<noteq> []"
    by (auto simp: normalizeOn_daku normalizeSmallKanaOn_eq split: if_splits)
  then have k: "?k = map expandUnit ?e"
    by (simp add: normalizeOn_daku normalizeSmallKanaOn_eq g)
  from e have d: "?d \<noteq> []" by (simp add: dakuOn_def)
  then have c: "?c \<noteq> []" by (auto simp: normalizeKanaOn_eq)
  then have deq: "?d = lowerOf rt ?x" by (simp add: normalizeKanaOn_eq a)
  have x: "?x \<noteq> []" using c by simp
  have "last ?x \<noteq> 0x30FC"
    using c endingOn_last [of rt s] shiftUnit_facts [of "last ?c"] by (simp add: last_map)
  with FL2 [rule_format, of ?x] x d have dlast: "last ?d \<noteq> 0x30FC" unfolding deq by auto
  have "\<forall>u\<in>set ?x. \<not> isHiragana u" by (simp add: shiftUnit_facts)
  then have "\<not> (\<exists>u\<in>set ?x. isHiragana u)" by simp
  with FL1 [rule_format, of ?x] have dh: "\<forall>u\<in>set ?d. \<not> isHiragana u" unfolding deq by auto
  have eh: "\<forall>u\<in>set ?e. \<not> isHiragana u"
    unfolding dakuOn_def using dh
    by (rule normalizeDakuten_pred) (auto dest: devoiceUnit_hiragana)
  have elast: "last ?e \<noteq> 0x30FC"
    using d dlast by (simp add: dakuOn_def last_normalizeDakuten devoiceUnit_mark)
  have units: "\<forall>u\<in>set ?k. \<not> isHiragana u \<and> expandUnit u = u"
    using eh by (auto simp: k expandUnit_idem dest: expandUnit_hiragana)
  have klast: "last ?k \<noteq> 0x30FC"
    using e elast by (simp add: k last_map expandUnit_mark)
  from key_edges [OF g False]
  have edges: "devoiceUnit (hd ?k) = hd ?k \<and> devoiceUnit (last ?k) = last ?k"
    by (simp add: devoiceUnit_fixed)
  have "0xFF12 \<notin> set (nfkcOf rt ?k)" "0xFF3A \<notin> set (nfkcOf rt ?k)" using FN by simp_all
  then have sp: "0xFF12 \<notin> set ?k" "0xFF3A \<notin> set ?k" by (simp_all add: dl)
  from passes_fixed [OF sp dl ep units] klast edges show ?thesis by simp
qed

text \<open>
  The half-width spelling U+FF76 U+FF9E U+FF70 of "ga" with a long-vowel mark, on the
  runtime on kana names: the second pass returns U+30AC, the fourth pass and the last
  U+30AB, and the key is a fixed point.
\<close>

theorem normalize_idempotent_witness:
  "normalize [0xFF76, 0xFF9E, 0xFF70] = [0x30AB] \<and>
   normalize (normalize [0xFF76, 0xFF9E, 0xFF70]) = normalize [0xFF76, 0xFF9E, 0xFF70]"
proof -
  have h: "\<forall>u\<in>set (nfkc (normalizeSpecialCases [0xFF76, 0xFF9E, 0xFF70])). \<not> isMark u"
    by (simp add: nfkc_halfwidth_ga isMark_def)
  have k: "normalize [0xFF76, 0xFF9E, 0xFF70] = [0x30AB]"
    unfolding normalize_no_mark_eq [OF h] nfkc_halfwidth_ga
    by (simp add: stripMarks_def normalizeDakuten_eq upt_rec devoiceUnit_def dakutenMap_def
        dakutenTable_def expandUnit_def smallHira_def smallKata_def lowerUnit_def shiftUnit_def)
  note c = kana_conditions [OF h]
  have "normalizeOn kanaRuntime (normalizeOn kanaRuntime [0xFF76, 0xFF9E, 0xFF70])
      = normalizeOn kanaRuntime [0xFF76, 0xFF9E, 0xFF70]"
  proof (rule normalize_idempotent)
    show "\<forall>x. 0xFF12 \<notin> set (nfkcOf kanaRuntime x) \<and> 0xFF3A \<notin> set (nfkcOf kanaRuntime x)"
      unfolding kanaRuntime_simps by (intro allI kana_nfkc_special)
    show "\<forall>x. (\<exists>u\<in>set (lowerOf kanaRuntime x). isHiragana u) \<longrightarrow> (\<exists>u\<in>set x. isHiragana u)"
      unfolding kanaRuntime_simps by (intro allI kana_lower_hiragana)
    show "\<forall>x. x \<noteq> [] \<and> lowerOf kanaRuntime x \<noteq> [] \<and> last (lowerOf kanaRuntime x) = 0x30FC
        \<longrightarrow> last x = 0x30FC"
      unfolding kanaRuntime_simps by (intro allI kana_lower_last)
    show "nfkcOf kanaRuntime (endingOn kanaRuntime [0xFF76, 0xFF9E, 0xFF70])
        = endingOn kanaRuntime [0xFF76, 0xFF9E, 0xFF70]"
      using c by simp
    show "nfkcOf kanaRuntime (dakuOn kanaRuntime [0xFF76, 0xFF9E, 0xFF70])
        = dakuOn kanaRuntime [0xFF76, 0xFF9E, 0xFF70]"
      using c by simp
    show "nfkcOf kanaRuntime (normalizeOn kanaRuntime [0xFF76, 0xFF9E, 0xFF70])
        = normalizeOn kanaRuntime [0xFF76, 0xFF9E, 0xFF70]"
      using c by (simp add: normalizeOn_kana)
    show "lowerOf kanaRuntime (normalizeOn kanaRuntime [0xFF76, 0xFF9E, 0xFF70])
        = normalizeOn kanaRuntime [0xFF76, 0xFF9E, 0xFF70]"
      using c by (simp add: normalizeOn_kana)
  qed
  then have "normalize (normalize [0xFF76, 0xFF9E, 0xFF70]) = normalize [0xFF76, 0xFF9E, 0xFF70]"
    by (simp add: normalizeOn_kana)
  with k show ?thesis by simp
qed

text \<open>
  As stated, for every string, the claim fails. The small katakana "ka", U+30F5, followed
  by the combining voiced mark U+3099 has the key U+30AB U+3099: no kana composes with
  the mark until the last pass has made the small kana a full-size one. Normalising this
  key composes the two units to U+30AC, which the fourth pass takes to U+30AB.
\<close>

theorem normalize_idempotent_counterexample:
  "normalize (normalize [0x30F5, 0x3099]) \<noteq> normalize [0x30F5, 0x3099]"
  by (simp add: normalize_small_ka_mark normalize_ka_mark)

subsection \<open>C2: the chain validator\<close>

text \<open>
  C2. A candidate that is empty once trimmed of white space is valid. Any other
  candidate is valid if and only if its key starts with the last unit of the key of the
  predecessor's name, when there is a predecessor with a non-empty name, and ends with the
  first unit of the key of the successor's name, when there is a successor with a
  non-empty name; an absent or empty side holds. With both neighbours absent every
  candidate is valid. Where the key of a present name is empty there is no such
  unit: the predecessor's side then holds, and the successor's side compares with the text
  "undefined", as C10 says.
\<close>

theorem chain_validity:
  "(trim c = [] \<longleftrightarrow> (\<forall>u\<in>set c. isWhiteSpace u)) \<and>
   (getShiritoriValidity prev next c \<longleftrightarrow>
      trim c = [] \<or>
      ((\<forall>p. prev = Some p \<and> jpName p \<noteq> [] \<and> normalize (jpName p) \<noteq> [] \<longrightarrow>
            prefix [last (normalize (jpName p))] (normalize c)) \<and>
       (\<forall>n. next = Some n \<and> jpName n \<noteq> [] \<longrightarrow>
            suffix (if normalize (jpName n) = [] then undefinedText
                    else [hd (normalize (jpName n))]) (normalize c)))) \<and>
   getShiritoriValidity None None c"
proof (intro conjI)
  show "trim c = [] \<longleftrightarrow> (\<forall>u\<in>set c. isWhiteSpace u)" by (rule trim_Nil_iff)
  show "getShiritoriValidity prev next c \<longleftrightarrow>
      trim c = [] \<or>
      ((\<forall>p. prev = Some p \<and> jpName p \<noteq> [] \<and> normalize (jpName p) \<noteq> [] \<longrightarrow>
            prefix [last (normalize (jpName p))] (normalize c)) \<and>
       (\<forall>n. next = Some n \<and> jpName n \<noteq> [] \<longrightarrow>
            suffix (if normalize (jpName n) = [] then undefinedText
                    else [hd (normalize (jpName n))]) (normalize c)))"
    by (rule validity_eq)
  show "getShiritoriValidity None None c" by (simp add: validity_eq)
qed

text \<open>
  Pikachu, Windie, Eevee: the key of the first name ends with U+30A6, the key of the
  candidate starts with it and ends with U+30A4, with which the key of the last name
  starts. After Eevee the same candidate is not valid.
\<close>

theorem chain_validity_witness:
  "getShiritoriValidity
     (Some \<lparr>id_num = 25, name = [], jpName = [0x30D4, 0x30AB, 0x30C1, 0x30E5, 0x30A6],
            isFinalEvolution = False, isRestricted = False\<rparr>)
     (Some \<lparr>id_num = 133, name = [], jpName = [0x30A4, 0x30FC, 0x30D6, 0x30A4],
            isFinalEvolution = False, isRestricted = False\<rparr>)
     [0x30A6, 0x30A4, 0x30F3, 0x30C7, 0x30A3] \<and>
   \<not> getShiritoriValidity
     (Some \<lparr>id_num = 133, name = [], jpName = [0x30A4, 0x30FC, 0x30D6, 0x30A4],
            isFinalEvolution = False, isRestricted = False\<rparr>)
     None
     [0x30A6, 0x30A4, 0x30F3, 0x30C7, 0x30A3]"
  using
    chain_validity [of "[0x30A6, 0x30A4, 0x30F3, 0x30C7, 0x30A3]"
      "Some \<lparr>id_num = 25, name = [], jpName = [0x30D4, 0x30AB, 0x30C1, 0x30E5, 0x30A6],
             isFinalEvolution = False, isRestricted = False\<rparr>"
      "Some \<lparr>id_num = 133, name = [], jpName = [0x30A4, 0x30FC, 0x30D6, 0x30A4],
             isFinalEvolution = False, isRestricted = False\<rparr>"]
    chain_validity [of "[0x30A6, 0x30A4, 0x30F3, 0x30C7, 0x30A3]"
      "Some \<lparr>id_num = 133, name = [], jpName = [0x30A4, 0x30FC, 0x30D6, 0x30A4],
             isFinalEvolution = False, isRestricted = False\<rparr>"
      None]
  by (simp add: normalize_pikachu normalize_windie normalize_eevee isWhiteSpace_def
      suffix_to_prefix)

subsection \<open>C3: the special cases\<close>

text \<open>
  C3. The claim, and the comment above \<open>normalizeSpecialCases\<close> in the source, name the
  digit 2, U+0032, and the letter Z, U+005A: the name that ends with the digit is to have
  the key of the name that ends with U+30C4 U+30FC, the name that ends with the letter the
  key of the name that ends with U+30BC U+30C3 U+30C8. The table of the source has other
  keys, the full-width digit U+FF12 and the full-width letter U+FF3A, and the first pass
  replaces these two units and no other. On the two names as the comment writes them the
  first pass changes nothing: the key of the first ends with U+0032, the key of the
  second with U+007A, and neither is the key of the spelled-out name. On the names
  written with the full-width forms the keys are those of the spelled-out names.
\<close>

theorem special_cases_ascii:
  "normalizeSpecialCases s = concat (map specialReading s) \<and>
   normalizeSpecialCases [0x30DD, 0x30EA, 0x30B4, 0x30F3, 0x32] = [0x30DD, 0x30EA, 0x30B4, 0x30F3, 0x32] \<and>
   normalize [0x30DD, 0x30EA, 0x30B4, 0x30F3, 0x32] = [0x30DB, 0x30EA, 0x30B4, 0x30F3, 0x32] \<and>
   normalize [0x30DD, 0x30EA, 0x30B4, 0x30F3, 0x30C4, 0x30FC] = [0x30DB, 0x30EA, 0x30B4, 0x30F3, 0x30C4] \<and>
   normalize [0x30DD, 0x30EA, 0x30B4, 0x30F3, 0xFF12] = [0x30DB, 0x30EA, 0x30B4, 0x30F3, 0x30C4] \<and>
   normalizeSpecialCases [0x30DD, 0x30EA, 0x30B4, 0x30F3, 0x5A] = [0x30DD, 0x30EA, 0x30B4, 0x30F3, 0x5A] \<and>
   normalize [0x30DD, 0x30EA, 0x30B4, 0x30F3, 0x5A] = [0x30DB, 0x30EA, 0x30B4, 0x30F3, 0x7A] \<and>
   normalize [0x30DD, 0x30EA, 0x30B4, 0x30F3, 0x30BC, 0x30C3, 0x30C8]
     = [0x30DB, 0x30EA, 0x30B4, 0x30F3, 0x30BC, 0x30C4, 0x30C8] \<and>
   normalize [0x30DD, 0x30EA, 0x30B4, 0x30F3, 0xFF3A]
     = [0x30DB, 0x30EA, 0x30B4, 0x30F3, 0x30BC, 0x30C4, 0x30C8]"
proof (intro conjI)
  show "normalizeSpecialCases s = concat (map specialReading s)"
    by (rule normalizeSpecialCases_eq)
  show "normalizeSpecialCases [0x30DD, 0x30EA, 0x30B4, 0x30F3, 0x32] = [0x30DD, 0x30EA, 0x30B4, 0x30F3, 0x32]"
    by (simp add: normalizeSpecialCases_eq specialReading_def)
  show "normalize [0x30DD, 0x30EA, 0x30B4, 0x30F3, 0x32] = [0x30DB, 0x30EA, 0x30B4, 0x30F3, 0x32]"
    by (rule normalize_porygon2_ascii)
  show "normalize [0x30DD, 0x30EA, 0x30B4, 0x30F3, 0x30C4, 0x30FC] = [0x30DB, 0x30EA, 0x30B4, 0x30F3, 0x30C4]"
    by (rule normalize_porygon_tsu)
  show "normalize [0x30DD, 0x30EA, 0x30B4, 0x30F3, 0xFF12] = [0x30DB, 0x30EA, 0x30B4, 0x30F3, 0x30C4]"
    by (rule normalize_porygon2)
  show "normalizeSpecialCases [0x30DD, 0x30EA, 0x30B4, 0x30F3, 0x5A] = [0x30DD, 0x30EA, 0x30B4, 0x30F3, 0x5A]"
    by (simp add: normalizeSpecialCases_eq specialReading_def)
  show "normalize [0x30DD, 0x30EA, 0x30B4, 0x30F3, 0x5A] = [0x30DB, 0x30EA, 0x30B4, 0x30F3, 0x7A]"
    by (rule normalize_porygonZ_ascii)
  show "normalize [0x30DD, 0x30EA, 0x30B4, 0x30F3, 0x30BC, 0x30C3, 0x30C8]
     = [0x30DB, 0x30EA, 0x30B4, 0x30F3, 0x30BC, 0x30C4, 0x30C8]"
    by (rule normalize_porygon_zetto)
  show "normalize [0x30DD, 0x30EA, 0x30B4, 0x30F3, 0xFF3A]
     = [0x30DB, 0x30EA, 0x30B4, 0x30F3, 0x30BC, 0x30C4, 0x30C8]"
    by (rule normalize_porygonZ)
qed

subsection \<open>C4: no hiragana in a key\<close>

text \<open>
  C4. For every input string, no unit of the key is a hiragana, a unit from U+3041 to
  U+3096: the third pass has moved each of them to its katakana, and no later pass
  brings one back. This holds over every runtime with three properties that the
  normalisation form KC and the lower-casing of Unicode have: width normalisation returns
  a hiragana only for a string that has a hiragana, the digraph U+309F or the code point
  U+1F200; it returns neither U+309F nor U+1F200; and lower-casing returns none of the
  three for a string that has none.
\<close>

theorem normalize_no_hiragana:
  assumes N2: "\<forall>x. (\<exists>u\<in>set (nfkcOf rt x). isHiragana u) \<longrightarrow> yieldsHiragana x"
    and N1: "\<forall>x. 0x309F \<notin> set (nfkcOf rt x) \<and> \<not> adjacent 0xD83C 0xDE00 (nfkcOf rt x)"
    and L1: "\<forall>x. yieldsHiragana (lowerOf rt x) \<longrightarrow> yieldsHiragana x"
  shows "\<forall>u\<in>set (normalizeOn rt s). \<not> isHiragana u"
proof -
  let ?c = "endingOn rt s"
  let ?d = "normalizeKanaOn rt ?c"
  let ?e = "dakuOn rt s"
  have "\<not> yieldsHiragana (map shiftUnit (nfkcOf rt ?c))"
    using N1 by (intro shift_yields) simp_all
  with L1 [rule_format, of "map shiftUnit (nfkcOf rt ?c)"]
  have "\<not> yieldsHiragana (lowerOf rt (map shiftUnit (nfkcOf rt ?c)))" by auto
  then have "\<not> yieldsHiragana ?d" by (simp add: normalizeKanaOn_eq)
  then have "\<not> yieldsHiragana ?e" unfolding dakuOn_def by (rule daku_yields)
  with N2 [rule_format, of ?e] have "\<forall>u\<in>set (nfkcOf rt ?e). \<not> isHiragana u" by auto
  then have "\<forall>u\<in>set (map expandUnit (nfkcOf rt ?e)). \<not> isHiragana u"
    by (auto dest: expandUnit_hiragana)
  then show ?thesis by (simp add: normalizeOn_daku normalizeSmallKanaOn_eq)
qed

text \<open>
  U+1F200 before the hiragana U+3089, on the runtime that maps it: the key is the katakana
  U+30DB U+30AB U+30E9.
\<close>

theorem normalize_no_hiragana_witness:
  "normalizeOn hokaRuntime [0xD83C, 0xDE00, 0x3089] = [0x30DB, 0x30AB, 0x30E9] \<and>
   \<not> isHiragana 0x30DB \<and> \<not> isHiragana 0x30AB \<and> \<not> isHiragana 0x30E9"
proof -
  have "\<forall>u\<in>set (normalizeOn hokaRuntime [0xD83C, 0xDE00, 0x3089]). \<not> isHiragana u"
  proof (rule normalize_no_hiragana)
    show "\<forall>x. (\<exists>u\<in>set (nfkcOf hokaRuntime x). isHiragana u) \<longrightarrow> yieldsHiragana x"
      unfolding hokaRuntime_simps by (intro allI hoka_nfkc_hiragana)
    show "\<forall>x. 0x309F \<notin> set (nfkcOf hokaRuntime x) \<and> \<not> adjacent 0xD83C 0xDE00 (nfkcOf hokaRuntime x)"
      unfolding hokaRuntime_simps by (intro allI hoka_nfkc_sources)
    show "\<forall>x. yieldsHiragana (lowerOf hokaRuntime x) \<longrightarrow> yieldsHiragana x"
      unfolding hokaRuntime_simps by (intro allI kana_lower_yields)
  qed
  then show ?thesis by (simp add: normalizeOn_hoka)
qed

subsection \<open>C5: voicing marks at the edges\<close>

text \<open>
  C5 (amended). For every input string on which the width normalisation of the last pass
  changes nothing, the first and the last unit of the key are none of the twenty-five
  voiced and semi-voiced katakana that are the keys of the table of the fourth pass: the
  voiced forms of the ka, sa, ta and ha rows and the semi-voiced forms of the ha row.
  What the fourth pass returns starts and ends with none of them, for every string. The
  fourth pass keeps the length of its input, replaces the first and the last unit by their
  base forms and keeps every unit between them; in a string of one unit that unit is
  both. The base form of a unit has no entry in the table, so taking it twice is taking it
  once. All this holds over every runtime. On the runtime on kana names the keys of
  U+30AC and of U+30AB are equal, the key of U+30AC U+30C9 is U+30AB U+30C8, and a voiced
  unit between two others stays. A voiced kana that is no key of the table, as U+30F4,
  stays at the edges too.
\<close>

theorem edge_devoicing:
  "(nfkcOf rt (dakuOn rt s) = dakuOn rt s \<longrightarrow> normalizeOn rt s \<noteq> [] \<longrightarrow>
      dakutenMap (hd (normalizeOn rt s)) = None \<and> dakutenMap (last (normalizeOn rt s)) = None) \<and>
   (dakuOn rt s \<noteq> [] \<longrightarrow>
      dakutenMap (hd (dakuOn rt s)) = None \<and> dakutenMap (last (dakuOn rt s)) = None) \<and>
   (dakutenMap v \<noteq> None \<longleftrightarrow>
      v \<in> {0x30AC, 0x30AE, 0x30B0, 0x30B2, 0x30B4, 0x30B6, 0x30B8, 0x30BA, 0x30BC, 0x30BE,
           0x30C0, 0x30C2, 0x30C5, 0x30C7, 0x30C9, 0x30D0, 0x30D3, 0x30D6, 0x30D9, 0x30DC,
           0x30D1, 0x30D4, 0x30D7, 0x30DA, 0x30DD}) \<and>
   length (normalizeDakuten d) = length d \<and>
   (\<forall>i<length d. normalizeDakuten d ! i =
      (if i = 0 \<or> Suc i = length d then devoiceUnit (d ! i) else d ! i)) \<and>
   dakutenMap (devoiceUnit u) = None \<and> devoiceUnit (devoiceUnit u) = devoiceUnit u \<and>
   normalize [0x30AC] = normalize [0x30AB] \<and>
   normalize [0x30AC, 0x30C9] = [0x30AB, 0x30C8] \<and>
   normalize [0x30AC, 0x30AC, 0x30AC] = [0x30AB, 0x30AC, 0x30AB] \<and>
   hd (normalize [0x30C9, 0x30E9, 0x30B4, 0x30F3]) = hd (normalize [0x30C8]) \<and>
   normalize [0x30F4] = [0x30F4]"
proof (intro conjI impI allI)
  assume "nfkcOf rt (dakuOn rt s) = dakuOn rt s" and "normalizeOn rt s \<noteq> []"
  from key_edges [OF this]
  show "dakutenMap (hd (normalizeOn rt s)) = None" and "dakutenMap (last (normalizeOn rt s)) = None"
    by simp_all
next
  assume "dakuOn rt s \<noteq> []"
  from dakuOn_edges [OF this]
  show "dakutenMap (hd (dakuOn rt s)) = None" and "dakutenMap (last (dakuOn rt s)) = None"
    by simp_all
next
  show "dakutenMap v \<noteq> None \<longleftrightarrow>
      v \<in> {0x30AC, 0x30AE, 0x30B0, 0x30B2, 0x30B4, 0x30B6, 0x30B8, 0x30BA, 0x30BC, 0x30BE,
           0x30C0, 0x30C2, 0x30C5, 0x30C7, 0x30C9, 0x30D0, 0x30D3, 0x30D6, 0x30D9, 0x30DC,
           0x30D1, 0x30D4, 0x30D7, 0x30DA, 0x30DD}"
    by (rule dakutenMap_dom)
  show "length (normalizeDakuten d) = length d" by simp
next
  fix i assume "i < length d"
  then show "normalizeDakuten d ! i = (if i = 0 \<or> Suc i = length d then devoiceUnit (d ! i) else d ! i)"
    by (rule nth_normalizeDakuten)
next
  show "dakutenMap (devoiceUnit u) = None"
    using devoiceUnit_idem [of u] by (simp add: devoiceUnit_fixed)
  show "devoiceUnit (devoiceUnit u) = devoiceUnit u" by (rule devoiceUnit_idem)
  show "normalize [0x30AC] = normalize [0x30AB]" by (simp only: normalize_ga normalize_ka)
  show "normalize [0x30AC, 0x30C9] = [0x30AB, 0x30C8]" by (rule normalize_gado)
  show "normalize [0x30AC, 0x30AC, 0x30AC] = [0x30AB, 0x30AC, 0x30AB]" by (rule normalize_gagaga)
  show "hd (normalize [0x30C9, 0x30E9, 0x30B4, 0x30F3]) = hd (normalize [0x30C8])"
    by (simp add: normalize_dragon normalize_to)
  show "normalize [0x30F4] = [0x30F4]" by (rule normalize_vu)
qed

text \<open>
  The name U+30C9 U+30AC U+30D1 on the runtime on kana names: the last pass has nothing
  to normalise, the key starts with U+30C8 and ends with U+30CF, and U+30AC stays between
  them.
\<close>

theorem edge_devoicing_witness:
  "normalize [0x30C9, 0x30AC, 0x30D1] = [0x30C8, 0x30AC, 0x30CF] \<and>
   dakutenMap 0x30C8 = None \<and> dakutenMap 0x30CF = None \<and>
   normalizeDakuten [0x30C9, 0x30AC, 0x30D1] ! 1 = 0x30AC"
proof -
  have h: "\<forall>u\<in>set (nfkc (normalizeSpecialCases [0x30C9, 0x30AC, 0x30D1])). \<not> isMark u"
    by (simp add: nfkc_dogagaa isMark_def)
  from kana_conditions [OF h]
  have g: "nfkcOf kanaRuntime (dakuOn kanaRuntime [0x30C9, 0x30AC, 0x30D1])
      = dakuOn kanaRuntime [0x30C9, 0x30AC, 0x30D1]" by simp
  from edge_devoicing [of kanaRuntime "[0x30C9, 0x30AC, 0x30D1]" 0 "[0x30C9, 0x30AC, 0x30D1]" 0] g
  show ?thesis by (simp add: normalizeOn_kana normalize_dogapa)
qed

text \<open>
  As stated, for every input string and every character that carries a voicing mark, the
  claim fails. In U+30AC U+3099, a voiced kana followed by a combining voiced mark, the
  fourth pass devoices the first unit to U+30AB, and the width normalisation of the last
  pass composes it with the mark to U+30AC again: the key is the one voiced unit. And the
  voiced kana U+30F4, which is no key of the table, is its own key.
\<close>

theorem edge_devoicing_counterexample:
  "normalize [0x30AC, 0x3099] \<noteq> [] \<and> dakutenMap (hd (normalize [0x30AC, 0x3099])) \<noteq> None \<and>
   normalize [0x30F4] = [0x30F4] \<and> composePair 0x30A6 0x3099 = Some 0x30F4"
  by (simp add: normalize_ga_mark normalize_vu dakutenMap_def dakutenTable_def composePair_def
      voicedTable_def)

subsection \<open>C6: the trailing long-vowel mark\<close>

text \<open>
  C6. The second pass returns the width-normalised string without the long-vowel marks,
  U+30FC, at its end: the normalised string is the result followed by marks only, and
  the result does not end with the mark. Marks before another unit stay. The keys of
  "pokemon" with and without a trailing mark are equal; the key of "roller" keeps the
  mark inside the word and differs from the key of "roura".
\<close>

theorem normalizeEnding_trailing:
  "(\<exists>n. nfkc s = normalizeEnding s @ replicate n 0x30FC) \<and>
   (normalizeEnding s \<noteq> [] \<longrightarrow> last (normalizeEnding s) \<noteq> 0x30FC) \<and>
   normalize [0x30DD, 0x30B1, 0x30E2, 0x30F3, 0x30FC] = normalize [0x30DD, 0x30B1, 0x30E2, 0x30F3] \<and>
   normalize [0x30ED, 0x30FC, 0x30E9, 0x30FC] = [0x30ED, 0x30FC, 0x30E9] \<and>
   normalize [0x30ED, 0x30FC, 0x30E9, 0x30FC] \<noteq> normalize [0x30ED, 0x30A6, 0x30E9]"
proof (intro conjI)
  show "\<exists>n. nfkc s = normalizeEnding s @ replicate n 0x30FC"
  proof (cases "s = []")
    case True
    then show ?thesis by (simp add: normalizeEnding_eq)
  next
    case False
    with stripMarks_replicate [of "nfkc s"] show ?thesis
      by (auto simp: normalizeEnding_eq)
  qed
  show "normalizeEnding s \<noteq> [] \<longrightarrow> last (normalizeEnding s) \<noteq> 0x30FC"
    using stripMarks_last [of "nfkc s"] by (auto simp: normalizeEnding_eq)
  show "normalize [0x30DD, 0x30B1, 0x30E2, 0x30F3, 0x30FC] = normalize [0x30DD, 0x30B1, 0x30E2, 0x30F3]"
    by (simp add: normalize_pokemon_mark normalize_pokemon)
  show "normalize [0x30ED, 0x30FC, 0x30E9, 0x30FC] = [0x30ED, 0x30FC, 0x30E9]"
    by (rule normalize_roller)
  show "normalize [0x30ED, 0x30FC, 0x30E9, 0x30FC] \<noteq> normalize [0x30ED, 0x30A6, 0x30E9]"
    by (simp add: normalize_roller normalize_roura)
qed

theorem normalizeEnding_trailing_witness:
  "normalizeEnding [0x30ED, 0x30FC, 0x30E9, 0x30FC, 0x30FC] = [0x30ED, 0x30FC, 0x30E9] \<and>
   last (normalizeEnding [0x30ED, 0x30FC, 0x30E9, 0x30FC, 0x30FC]) = 0x30E9"
  using normalizeEnding_trailing [of "[0x30ED, 0x30FC, 0x30E9, 0x30FC, 0x30FC]"]
  by (simp add: normalizeEnding_roller)

subsection \<open>C7: hiragana and katakana\<close>

text \<open>
  C7. A string of hiragana, units from U+3041 to U+3096, and the katakana string that
  has each unit moved up by 0x60 have the same key.
\<close>

theorem script_insensitive:
  assumes h: "\<forall>u\<in>set h. isHiragana u"
  shows "normalize h = normalize (map (\<lambda>u. u + 0x60) h)"
proof -
  let ?k = "map (\<lambda>u. u + 0x60) h"
  have ch: "\<forall>u\<in>set h. clean u" using h by (auto intro: hiragana_clean)
  have ck: "\<forall>u\<in>set ?k. clean u" using h hiragana_shifted by auto
  have sh: "normalizeSpecialCases h = h"
    using ch by (simp add: normalizeSpecialCases_eq concat_specialReading clean_def)
  have sk: "normalizeSpecialCases ?k = ?k"
    using ck by (simp only: normalizeSpecialCases_eq) (rule concat_specialReading, simp add: clean_def)
  have th: "stripMarks h = h" using h hiragana_shifted by (intro stripMarks_none) auto
  have tk: "stripMarks ?k = ?k" using h hiragana_shifted by (intro stripMarks_none) auto
  have m: "map (lowerUnit \<circ> shiftUnit) ?k = map (lowerUnit \<circ> shiftUnit) h"
    using h hiragana_shifted by (simp add: comp_def)
  have "normalize h = map expandUnit (normalizeDakuten (map (lowerUnit \<circ> shiftUnit) h))"
    using ch by (simp add: normalize_clean_eq sh th)
  moreover have "normalize ?k = map expandUnit (normalizeDakuten (map (lowerUnit \<circ> shiftUnit) ?k))"
    using ck sk tk normalize_clean_eq [of ?k] by simp
  ultimately show ?thesis by (simp only: m)
qed

text \<open>
  The name Raichu in hiragana and in katakana.
\<close>

theorem script_insensitive_witness:
  "normalize [0x3089, 0x3044, 0x3061, 0x3085, 0x3046] = normalize [0x30E9, 0x30A4, 0x30C1, 0x30E5, 0x30A6]"
  using script_insensitive [of "[0x3089, 0x3044, 0x3061, 0x3085, 0x3046]"]
  by (simp add: isHiragana_def)

subsection \<open>C8: no small kana in a key\<close>

text \<open>
  C8. For every input string, no unit of the key is a small form: none that
  \<open>isSmallKana\<close> accepts and none that is a key of \<open>smallKanaMap\<close>. The last pass
  replaces them wherever they stand.
\<close>

theorem normalize_no_small_kana:
  "\<forall>u\<in>set (normalize s). \<not> isSmallKana [u] \<and> smallKanaMap [u] = None"
proof
  fix u assume "u \<in> set (normalize s)"
  then have "\<not> smallForm u" by (simp add: normalize_settled)
  then show "\<not> isSmallKana [u] \<and> smallKanaMap [u] = None" by (simp add: smallForm_def)
qed

theorem normalize_no_small_kana_witness:
  "normalize [0x306B, 0x3083, 0x3093] = [0x30CB, 0x30E4, 0x30F3] \<and>
   \<not> isSmallKana [0x30E4] \<and> smallKanaMap [0x30E4] = None"
  using normalize_no_small_kana [of "[0x306B, 0x3083, 0x3093]"]
  by (simp add: normalize_nyan)

subsection \<open>C9: totality and unmatched units\<close>

text \<open>
  C9 (amended). \<open>normalize\<close> and \<open>getShiritoriValidity\<close> have a result for every input,
  over every runtime: the source raises nowhere, and its one \<open>while\<close> loop ends, with an
  index from -1 to the last index of the string. The empty string has the empty key, a
  candidate is valid between absent neighbours, and the empty candidate is valid between
  any. A string that the runtime's width normalisation and lower-casing leave unchanged,
  and each unit of which no table and no rule of the passes matches, comes out of each of
  the five passes, and of \<open>normalize\<close>, as it went in. In any string, a unit that no
  table and no rule matches is kept by the first pass, between what the pass makes of the
  units before it and after it, and by the fourth pass at its place; when width
  normalisation leaves the string unchanged the unit is at its place after the second and
  the fifth pass, and after the third when lower-casing changes nothing behind the kana
  shift.
\<close>

theorem unmatched_pass_through:
  "((\<forall>u\<in>set s. unmatched u) \<longrightarrow> nfkcOf rt s = s \<longrightarrow> lowerOf rt s = s \<longrightarrow>
      normalizeSpecialCases s = s \<and> normalizeEndingOn rt s = s \<and> normalizeKanaOn rt s = s \<and>
      normalizeDakuten s = s \<and> normalizeSmallKanaOn rt s = s \<and> normalizeOn rt s = s) \<and>
   (i < length t \<longrightarrow> unmatched (t ! i) \<longrightarrow>
      normalizeSpecialCases t
        = normalizeSpecialCases (take i t) @ t ! i # normalizeSpecialCases (drop (Suc i) t) \<and>
      normalizeDakuten t ! i = t ! i \<and>
      (nfkcOf rt t = t \<longrightarrow>
         i < length (normalizeEndingOn rt t) \<and> normalizeEndingOn rt t ! i = t ! i \<and>
         normalizeSmallKanaOn rt t ! i = t ! i \<and>
         (lowerOf rt (map shiftUnit t) = map shiftUnit t \<longrightarrow> normalizeKanaOn rt t ! i = t ! i))) \<and>
   - 1 \<le> normalizeEnding_loop nk (int (length nk) - 1) \<and>
   normalizeEnding_loop nk (int (length nk) - 1) < int (length nk) \<and>
   normalizeOn rt [] = [] \<and>
   getShiritoriValidityOn rt None None c \<and> getShiritoriValidityOn rt prev next []"
proof (intro conjI impI)
  assume "\<forall>u\<in>set s. unmatched u" and "nfkcOf rt s = s" and "lowerOf rt s = s"
  from unmatched_fixed [OF this]
  show "normalizeSpecialCases s = s" and "normalizeEndingOn rt s = s"
    and "normalizeKanaOn rt s = s" and "normalizeDakuten s = s"
    and "normalizeSmallKanaOn rt s = s" and "normalizeOn rt s = s" by simp_all
next
  assume i: "i < length t" and u: "unmatched (t ! i)"
  show "normalizeSpecialCases t
        = normalizeSpecialCases (take i t) @ t ! i # normalizeSpecialCases (drop (Suc i) t)"
    using i u by (rule unmatched_position(1))
  show "normalizeDakuten t ! i = t ! i" using i u by (rule unmatched_position(2))
  assume n: "nfkcOf rt t = t"
  from unmatched_position(3) [OF i u n]
  show "i < length (normalizeEndingOn rt t)" and "normalizeEndingOn rt t ! i = t ! i"
    by simp_all
  show "normalizeSmallKanaOn rt t ! i = t ! i" using i u n by (rule unmatched_position(5))
  assume "lowerOf rt (map shiftUnit t) = map shiftUnit t"
  with i u n show "normalizeKanaOn rt t ! i = t ! i" by (rule unmatched_position(4))
next
  show "- 1 \<le> normalizeEnding_loop nk (int (length nk) - 1)"
    and "normalizeEnding_loop nk (int (length nk) - 1) < int (length nk)"
    using loop_bounds [of nk] by simp_all
  show "normalizeOn rt [] = []" by (simp add: normalizeOn_eq)
  show "getShiritoriValidityOn rt None None c" by (simp add: validityOn_eq)
  show "getShiritoriValidityOn rt prev next []" by (simp add: validityOn_eq trim_def)
qed

text \<open>
  On the runtime on kana names: a Han character, a space, a small letter and a katakana
  vowel; and the Han character between a voiced kana and a small hiragana, which the passes
  change around it.
\<close>

theorem unmatched_pass_through_witness:
  "normalize [0x6F22, 0x20, 0x61, 0x30A2] = [0x6F22, 0x20, 0x61, 0x30A2] \<and>
   normalizeKana [0x6F22, 0x20, 0x61, 0x30A2] = [0x6F22, 0x20, 0x61, 0x30A2] \<and>
   normalizeEnding [0x30AC, 0x6F22, 0x3041, 0x61, 0x30C9] ! 1 = 0x6F22 \<and>
   normalizeKana [0x30AC, 0x6F22, 0x3041, 0x61, 0x30C9] ! 1 = 0x6F22 \<and>
   normalizeSmallKana [0x30AC, 0x6F22, 0x3041, 0x61, 0x30C9] ! 1 = 0x6F22"
  using unmatched_pass_through [of "[0x6F22, 0x20, 0x61, 0x30A2]" kanaRuntime 1
      "[0x30AC, 0x6F22, 0x3041, 0x61, 0x30C9]" "[]" "[]" None None]
  by (simp add: unmatched_examples mixed_fixed normalize_def normalizeKana_def
      normalizeEnding_def normalizeSmallKana_def toLowerCase_def lowerUnit_def shiftUnit_def)

text \<open>
  As stated, for every character that no table matches, the claim fails. Neither the
  katakana U+30AB nor the combining voiced mark U+3099 is matched by a table or a rule of
  the passes, and the second pass returns neither of them for the string U+30AB U+3099:
  its width normalisation composes the two to U+30AC.
\<close>

theorem unmatched_pass_through_counterexample:
  "unmatched 0x30AB \<and> unmatched 0x3099 \<and> normalizeEnding [0x30AB, 0x3099] = [0x30AC]"
  by (simp add: unmatched_examples normalizeEnding_ka_mark)

subsection \<open>C10: a neighbour with an empty key\<close>

text \<open>
  C10. Let a neighbour have a non-empty name whose key is empty, as the name U+30FC has.
  As predecessor it constrains nothing: the validator answers as if there were no
  predecessor. As successor it makes the validator compare the end of the candidate's key
  with the text "undefined": a candidate that is not empty once trimmed, and whose key
  does not end with that text, is not valid. Non-empty is the validator's own test of the
  candidate, after trimming.
\<close>

theorem empty_key_neighbour:
  assumes name: "jpName n \<noteq> []" and key: "normalize (jpName n) = []"
  shows "(getShiritoriValidity (Some n) next c \<longleftrightarrow> getShiritoriValidity None next c) \<and>
     (getShiritoriValidity prev (Some n) c \<longleftrightarrow>
        trim c = [] \<or> getShiritoriValidity prev None c \<and> suffix undefinedText (normalize c)) \<and>
     (trim c \<noteq> [] \<longrightarrow> \<not> suffix undefinedText (normalize c) \<longrightarrow>
        \<not> getShiritoriValidity prev (Some n) c)"
proof (intro conjI impI)
  show "getShiritoriValidity (Some n) next c \<longleftrightarrow> getShiritoriValidity None next c"
    using key by (simp add: validity_eq)
  show succ: "getShiritoriValidity prev (Some n) c \<longleftrightarrow>
      trim c = [] \<or> getShiritoriValidity prev None c \<and> suffix undefinedText (normalize c)"
    using name key by (simp add: validity_eq) blast
  assume "trim c \<noteq> []" and "\<not> suffix undefinedText (normalize c)"
  with succ show "\<not> getShiritoriValidity prev (Some n) c" by simp
qed

theorem empty_key_neighbour_witness:
  "normalize [0x30FC] = [] \<and>
   getShiritoriValidity
     (Some \<lparr>id_num = 0, name = [], jpName = [0x30FC], isFinalEvolution = False, isRestricted = False\<rparr>)
     None [0x30A2] \<and>
   \<not> getShiritoriValidity None
     (Some \<lparr>id_num = 0, name = [], jpName = [0x30FC], isFinalEvolution = False, isRestricted = False\<rparr>)
     [0x30A2] \<and>
   getShiritoriValidity None
     (Some \<lparr>id_num = 0, name = [], jpName = [0x30FC], isFinalEvolution = False, isRestricted = False\<rparr>)
     (0x30A2 # undefinedText)"
proof -
  let ?n = "\<lparr>id_num = 0, name = [], jpName = [0x30FC], isFinalEvolution = False, isRestricted = False\<rparr>"
  have n: "jpName ?n \<noteq> []" "normalize (jpName ?n) = []" by (simp_all add: normalize_mark)
  have t: "trim [0x30A2] \<noteq> []" "trim (0x30A2 # undefinedText) \<noteq> []"
    by (simp_all add: trim_Nil_iff isWhiteSpace_def)
  have k: "normalize [0x30A2] = [0x30A2]" by (rule normalize_a)
  have k': "normalize (0x30A2 # undefinedText) = 0x30A2 # undefinedText"
    by (simp add: undefinedText_def clean_simps)
  have v: "getShiritoriValidity None None [0x30A2]" "getShiritoriValidity None None (0x30A2 # undefinedText)"
    by (simp_all add: validity_eq)
  have s1: "\<not> suffix undefinedText (normalize [0x30A2])"
    by (simp add: k undefinedText_def suffix_to_prefix)
  have s2: "suffix undefinedText (normalize (0x30A2 # undefinedText))"
    by (simp add: k' suffix_ConsI)
  from empty_key_neighbour [OF n, of None "[0x30A2]" None]
    empty_key_neighbour [OF n, of None "0x30A2 # undefinedText" None]
  show ?thesis
    by (simp add: t s1 s2 v normalize_mark)
qed

end
